theory Spec2Isabelle
  imports Main "HOL-Library.Multiset"
begin

section \<open>The future, promise and timer primitives\<close>

text \<open>
  \<^verbatim>\<open>core/future-util.hh\<close> is a library of combinators over the futures of
  \<^verbatim>\<open>future.hh\<close>, the tasks of \<^verbatim>\<open>task.hh\<close> and the timers of \<^verbatim>\<open>timer.hh\<close>.
  Those three headers are included by the file but are not among the sources, so the
  primitives are modelled from the specification (sections 3 and 6), and the combinators
  from the source.

  Exceptions are values of a type variable \<open>'e\<close>; the result slot of a future is a
  tagged union, as section 9 of the specification describes it.
\<close>

datatype ('a, 'e) outcome = Value 'a | Exception 'e

text \<open>
  Modelled from the spec: the future of \<^verbatim>\<open>future.hh\<close> (section 3, "pending",
  "ready-with-value", "ready-with-exception"; the transition from pending to ready is
  one-way and happens once). \<open>Available out\<close> is a future that is ready when the
  combinator looks at it. \<open>NotAvailable out\<close> is a future that is pending at that moment;
  \<open>out\<close> is the outcome it is resolved with later, which the combinator cannot see
  before the resolution (no function below reads it through \<open>available\<close>,
  \<open>failed\<close> or \<open>get0\<close>).
\<close>

datatype ('a, 'e) future = Available "('a, 'e) outcome" | NotAvailable "('a, 'e) outcome"

fun available :: "('a, 'e) future \<Rightarrow> bool" where
  "available (Available out) = True"
| "available (NotAvailable out) = False"

fun failed :: "('a, 'e) future \<Rightarrow> bool" where
  "failed (Available (Exception e)) = True"
| "failed (Available (Value v)) = False"
| "failed (NotAvailable out) = False"

text \<open>The outcome a future has once it is resolved.\<close>

fun eventual :: "('a, 'e) future \<Rightarrow> ('a, 'e) outcome" where
  "eventual (Available out) = out"
| "eventual (NotAvailable out) = out"

text \<open>
  Modelled from the spec: claiming the result of a ready future (section 6,
  "claim-result"). \<open>get0\<close> rethrows a stored exception, which is the \<open>Inl\<close> case.
\<close>

fun get0 :: "('a, 'e) outcome \<Rightarrow> 'e + 'a" where
  "get0 (Value v) = Inr v"
| "get0 (Exception e) = Inl e"

text \<open>
  A call of a caller-supplied function either throws synchronously or returns a future.
\<close>

datatype ('a, 'e) invoked = Throws 'e | Returns "('a, 'e) future"

text \<open>
  Modelled from the spec: \<^verbatim>\<open>futurize<...>::apply\<close> of \<^verbatim>\<open>future.hh\<close>, which turns
  a synchronous throw of the called function into a ready failed future
  (section 7 (a): an action fails by throwing or by returning a future that fails).
\<close>

fun futurize_apply :: "('a, 'e) invoked \<Rightarrow> ('a, 'e) future" where
  "futurize_apply (Throws e) = Available (Exception e)"
| "futurize_apply (Returns f) = f"

text \<open>
  Modelled from the spec: the promise of \<^verbatim>\<open>future.hh\<close> (section 3: exactly one of
  "set value" and "set exception" may be invoked, exactly once). A second resolution
  is recorded as \<open>Broken\<close>, so that "never set twice" is a property of the model and
  not an assumption.
\<close>

datatype ('a, 'e) promise = Unset | Resolved "('a, 'e) outcome" | Broken

fun resolve :: "('a, 'e) promise \<Rightarrow> ('a, 'e) outcome \<Rightarrow> ('a, 'e) promise" where
  "resolve Unset out = Resolved out"
| "resolve (Resolved old) out = Broken"
| "resolve Broken out = Broken"

definition set_value :: "('a, 'e) promise \<Rightarrow> 'a \<Rightarrow> ('a, 'e) promise" where
  "set_value p v = resolve p (Value v)"

definition set_exception :: "('a, 'e) promise \<Rightarrow> 'e \<Rightarrow> ('a, 'e) promise" where
  "set_exception p e = resolve p (Exception e)"

text \<open>
  Modelled from the spec: \<^verbatim>\<open>future::forward_to\<close> on a ready future (section 6,
  "propagate one future's outcome into a given promise").
\<close>

definition forward_to :: "('a, 'e) outcome \<Rightarrow> ('a, 'e) promise \<Rightarrow> ('a, 'e) promise" where
  "forward_to out p = resolve p out"

text \<open>
  Modelled from the spec: the timer of \<^verbatim>\<open>timer.hh\<close> (section 6: arm with a deadline,
  fire a callback, cancel and report whether the cancellation preempted the firing).
\<close>

datatype 'd timer = Armed 'd | Fired | Cancelled

fun cancel :: "'d timer \<Rightarrow> bool \<times> 'd timer" where
  "cancel (Armed d) = (True, Cancelled)"
| "cancel Fired = (False, Fired)"
| "cancel Cancelled = (False, Cancelled)"

section \<open>with_timeout\<close>

text \<open>
  \<^verbatim>\<open>with_timeout\<close> (lines 726-745). When \<^verbatim>\<open>f\<close> is available it is returned as it
  is (\<open>Passed\<close>). Otherwise the function makes a promise, arms a timer whose callback
  sets the factory's exception on the promise, attaches a continuation to \<^verbatim>\<open>f\<close> and
  returns the promise's future; what exists after the return is the record below:
  the promise \<^verbatim>\<open>*pr\<close> behind the returned future, the timer, and the source future
  \<^verbatim>\<open>f\<close> with its continuation.
\<close>

datatype ('a, 'e) source = Attached "('a, 'e) outcome" | Forwarded | Ignored

record ('a, 'e, 'd) with_timeout_state =
  result_pr :: "('a, 'e) promise"
  deadline_timer :: "'d timer"
  src :: "('a, 'e) source"

datatype ('a, 'e, 'd) with_timeout_result =
  Passed "('a, 'e) future"
| Racing "('a, 'e, 'd) with_timeout_state"

definition with_timeout ::
  "'e \<Rightarrow> 'd \<Rightarrow> ('a, 'e) future \<Rightarrow> ('a, 'e, 'd) with_timeout_result" where
  "with_timeout factory_timeout timeout f =
     (if available f then Passed f
      else Racing \<lparr>result_pr = Unset, deadline_timer = Armed timeout, src = Attached (eventual f)\<rparr>)"

text \<open>The timer's callback (lines 733-735), run when the armed timer expires.\<close>

definition timer_callback ::
  "'e \<Rightarrow> ('a, 'e, 'd) with_timeout_state \<Rightarrow> ('a, 'e, 'd) with_timeout_state" where
  "timer_callback factory_timeout st =
     (case deadline_timer st of
        Armed d \<Rightarrow> st\<lparr>result_pr := set_exception (result_pr st) factory_timeout, deadline_timer := Fired\<rparr>
      | Fired \<Rightarrow> st
      | Cancelled \<Rightarrow> st)"

text \<open>The continuation attached to \<^verbatim>\<open>f\<close> (lines 737-743), run when \<^verbatim>\<open>f\<close> resolves.\<close>

definition timeout_continuation ::
  "('a, 'e, 'd) with_timeout_state \<Rightarrow> ('a, 'e, 'd) with_timeout_state" where
  "timeout_continuation st =
     (case src st of
        Attached out \<Rightarrow>
          (case cancel (deadline_timer st) of
             (True, t) \<Rightarrow> st\<lparr>result_pr := forward_to out (result_pr st), deadline_timer := t, src := Forwarded\<rparr>
           | (False, t) \<Rightarrow> st\<lparr>deadline_timer := t, src := Ignored\<rparr>)
      | Forwarded \<Rightarrow> st
      | Ignored \<Rightarrow> st)"

text \<open>
  The two things that can happen after \<^verbatim>\<open>with_timeout\<close> has returned, in any order
  and any number of times: the deadline passes, the source future resolves.
\<close>

datatype timeout_event = Deadline | Resolution

fun with_timeout_step ::
  "'e \<Rightarrow> ('a, 'e, 'd) with_timeout_state \<Rightarrow> timeout_event
     \<Rightarrow> ('a, 'e, 'd) with_timeout_state" where
  "with_timeout_step factory_timeout st Deadline = timer_callback factory_timeout st"
| "with_timeout_step factory_timeout st Resolution = timeout_continuation st"

definition with_timeout_run ::
  "'e \<Rightarrow> ('a, 'e, 'd) with_timeout_state \<Rightarrow> timeout_event list
     \<Rightarrow> ('a, 'e, 'd) with_timeout_state" where
  "with_timeout_run factory_timeout st evs = foldl (with_timeout_step factory_timeout) st evs"

text \<open>Whether a call of \<^verbatim>\<open>with_timeout\<close> has armed a timer.\<close>

fun arms_timer :: "('a, 'e, 'd) with_timeout_result \<Rightarrow> bool" where
  "arms_timer (Passed f) = False"
| "arms_timer (Racing st) = (case deadline_timer st of Armed d \<Rightarrow> True | Fired \<Rightarrow> False | Cancelled \<Rightarrow> False)"


section \<open>Sequential combinators\<close>

text \<open>
  An action takes no argument and is called many times, so it is a closure over mutable
  state: a function from the state \<open>'s\<close> before the call to what the call does and
  the state after it. The thread-local \<^verbatim>\<open>task_quota\<close> that \<^verbatim>\<open>need_preempt()\<close> of
  \<^verbatim>\<open>future.hh\<close> reads belongs to the same state, so the preemption check is a
  parameter \<open>need_preempt :: 's \<Rightarrow> bool\<close> of the combinators that call it.
\<close>

type_synonym ('s, 'a, 'e) async_action = "'s \<Rightarrow> ('a, 'e) invoked \<times> 's"

text \<open>
  One call of a loop combinator runs synchronously until it returns. It returns in one
  of three ways: with the result decided (\<open>Finished\<close>: the future it returns is ready,
  or the promise it was given is set); chained to a future of the action that is not
  available yet (\<open>Suspended\<close>, with the outcome that future gets later); or after
  scheduling a task that captures the action (\<open>Preempted\<close>).
\<close>

datatype ('s, 'a, 'r, 'e) looping =
  Finished "('r, 'e) outcome" 's
| Suspended "('a, 'e) outcome" 's
| Preempted 's

text \<open>
  \<^verbatim>\<open>do_until_continued\<close> (lines 144-173). The loop has no bound, so the function
  is partial: \<open>None\<close> is a call that never returns.
\<close>

partial_function (option) do_until_continued ::
  "('s \<Rightarrow> bool) \<Rightarrow> ('s, unit, 'e) async_action \<Rightarrow> 's
     \<Rightarrow> ('s, unit, unit, 'e) looping option" where
  "do_until_continued stop_cond action s =
     (if \<not> stop_cond s then
        (case action s of
           (Throws e, s') \<Rightarrow> Some (Finished (Exception e) s')
         | (Returns f, s') \<Rightarrow>
             if \<not> available f then Some (Suspended (eventual f) s')
             else if failed f then Some (Finished (eventual f) s')
             else do_until_continued stop_cond action s')
      else Some (Finished (Value ()) s))"

datatype stop_iteration = no | yes

text \<open>\<^verbatim>\<open>repeat\<close> (lines 187-221).\<close>

partial_function (option) repeat ::
  "('s \<Rightarrow> bool) \<Rightarrow> ('s, stop_iteration, 'e) async_action \<Rightarrow> 's
     \<Rightarrow> ('s, stop_iteration, unit, 'e) looping option" where
  "repeat need_preempt action s =
     (case action s of (r, s') \<Rightarrow>
        (let f = futurize_apply r in
         if \<not> available f then Some (Suspended (eventual f) s')
         else (case get0 (eventual f) of
                 Inl e \<Rightarrow> Some (Finished (Exception e) s')
               | Inr yes \<Rightarrow> Some (Finished (Value ()) s')
               | Inr no \<Rightarrow>
                   if \<not> need_preempt s' then repeat need_preempt action s'
                   else Some (Preempted s'))))"

text \<open>
  \<^verbatim>\<open>repeat_until_value\<close> (lines 258-299); the action's value is a
  \<^verbatim>\<open>std::experimental::optional<T>\<close>.
\<close>

partial_function (option) repeat_until_value ::
  "('s \<Rightarrow> bool) \<Rightarrow> ('s, 'v option, 'e) async_action \<Rightarrow> 's
     \<Rightarrow> ('s, 'v option, 'v, 'e) looping option" where
  "repeat_until_value need_preempt action s =
     (case action s of (r, s') \<Rightarrow>
        (let f = futurize_apply r in
         if \<not> available f then Some (Suspended (eventual f) s')
         else (case eventual f of
                 Exception e \<Rightarrow> Some (Finished (Exception e) s')
               | Value (Some v) \<Rightarrow> Some (Finished (Value v) s')
               | Value None \<Rightarrow>
                   if \<not> need_preempt s' then repeat_until_value need_preempt action s'
                   else Some (Preempted s'))))"

text \<open>\<^verbatim>\<open>do_until\<close> (lines 311-319): a fresh promise, handed to the loop.\<close>

definition do_until ::
  "('s \<Rightarrow> bool) \<Rightarrow> ('s, unit, 'e) async_action \<Rightarrow> 's
     \<Rightarrow> ('s, unit, unit, 'e) looping option" where
  "do_until stop_cond action s = do_until_continued stop_cond action s"

text \<open>
  Modelled from the spec: \<^verbatim>\<open>future::then\<close> of \<^verbatim>\<open>future.hh\<close> with a continuation
  that returns a plain value (section 3: the continuation runs when the future becomes
  ready, immediately if it is ready already; section 6, "attach-continuation"). A failed
  future skips the continuation and passes its exception on.
\<close>

fun future_then :: "('a, 'e) future \<Rightarrow> ('a \<Rightarrow> 'b) \<Rightarrow> ('b, 'e) future" where
  "future_then (Available (Value v)) g = Available (Value (g v))"
| "future_then (Available (Exception e)) g = Available (Exception e)"
| "future_then (NotAvailable (Value v)) g = NotAvailable (Value (g v))"
| "future_then (NotAvailable (Exception e)) g = NotAvailable (Exception e)"

text \<open>
  \<^verbatim>\<open>keep_doing\<close> (lines 328-336): \<^verbatim>\<open>repeat\<close> of the lambda that calls the action
  and maps its value to \<^verbatim>\<open>stop_iteration::no\<close>.
\<close>

definition keep_doing_lambda ::
  "('s, unit, 'e) async_action \<Rightarrow> ('s, stop_iteration, 'e) async_action" where
  "keep_doing_lambda action s =
     (case action s of
        (Throws e, s') \<Rightarrow> (Throws e, s')
      | (Returns f, s') \<Rightarrow> (Returns (future_then f (\<lambda>u. no)), s'))"

definition keep_doing ::
  "('s \<Rightarrow> bool) \<Rightarrow> ('s, unit, 'e) async_action \<Rightarrow> 's
     \<Rightarrow> ('s, stop_iteration, unit, 'e) looping option" where
  "keep_doing need_preempt action s = repeat need_preempt (keep_doing_lambda action) s"

text \<open>
  What the future returned by \<^verbatim>\<open>repeat\<close> resolves to, with the state the action is
  left in. A call that was suspended on a future of the action goes on when that future
  resolves: the lambda of lines 198-204 returns for \<^verbatim>\<open>stop_iteration::yes\<close> and
  calls \<^verbatim>\<open>repeat\<close> again otherwise, and a failed future skips the lambda. A call that
  was preempted goes on when the scheduler runs the task of lines 214-216, which calls
  \<^verbatim>\<open>repeat\<close> again and forwards its future. \<open>None\<close> is a future that never resolves.
\<close>

partial_function (option) repeat_future ::
  "('s \<Rightarrow> bool) \<Rightarrow> ('s, stop_iteration, 'e) async_action \<Rightarrow> 's
     \<Rightarrow> ((unit, 'e) outcome \<times> 's) option" where
  "repeat_future need_preempt action s =
     (case repeat need_preempt action s of
        None \<Rightarrow> None
      | Some (Finished out s') \<Rightarrow> Some (out, s')
      | Some (Suspended (Exception e) s') \<Rightarrow> Some (Exception e, s')
      | Some (Suspended (Value yes) s') \<Rightarrow> Some (Value (), s')
      | Some (Suspended (Value no) s') \<Rightarrow> repeat_future need_preempt action s'
      | Some (Preempted s') \<Rightarrow> repeat_future need_preempt action s')"

definition keep_doing_future ::
  "('s \<Rightarrow> bool) \<Rightarrow> ('s, unit, 'e) async_action \<Rightarrow> 's
     \<Rightarrow> ((unit, 'e) outcome \<times> 's) option" where
  "keep_doing_future need_preempt action s =
     repeat_future need_preempt (keep_doing_lambda action) s"

text \<open>
  The claim about \<^verbatim>\<open>keep_doing\<close> in the specification's words (section 4.2): run
  the action forever until it fails; the terminal outcome is that failure.
\<close>

fun failure :: "('a, 'e) invoked \<Rightarrow> 'e option" where
  "failure (Throws e) = Some e"
| "failure (Returns f) = (case eventual f of Exception e \<Rightarrow> Some e | Value v \<Rightarrow> None)"

partial_function (option) until_failure ::
  "('s, unit, 'e) async_action \<Rightarrow> 's \<Rightarrow> ((unit, 'e) outcome \<times> 's) option" where
  "until_failure action s =
     (case action s of (r, s') \<Rightarrow>
        (case failure r of
           Some e \<Rightarrow> Some (Exception e, s')
         | None \<Rightarrow> until_failure action s'))"

text \<open>
  \<^verbatim>\<open>do_for_each\<close> (lines 350-371). The action takes the element. The call of the
  action in line 357 is not inside a \<^verbatim>\<open>try\<close> block, so an exception that the action
  throws leaves \<^verbatim>\<open>do_for_each\<close> as a thrown exception (\<open>Escaped\<close>). Otherwise the
  function returns a future: one it has in hand (\<open>Returned\<close>: lines 354, 359 and 368),
  or the future of \<^verbatim>\<open>f.then(...)\<close> in line 362 for an \<^verbatim>\<open>f\<close> that is not available
  yet, whose lambda holds the rest of the range (\<open>Chained\<close>).
\<close>

datatype ('x, 's, 'e) do_for_each_result =
  Escaped 'e 's
| Returned "(unit, 'e) future" 's
| Chained "(unit, 'e) outcome" "'x list" 's

text \<open>The \<^verbatim>\<open>while (true)\<close> loop, entered with \<^verbatim>\<open>*begin = x\<close> and the rest of the range.\<close>

fun do_for_each_loop ::
  "'x \<Rightarrow> 'x list \<Rightarrow> ('x \<Rightarrow> ('s, unit, 'e) async_action) \<Rightarrow> 's
     \<Rightarrow> ('x, 's, 'e) do_for_each_result" where
  "do_for_each_loop x rest action s =
     (case action x s of
        (Throws e, s') \<Rightarrow> Escaped e s'
      | (Returns f, s') \<Rightarrow>
          (case rest of
             [] \<Rightarrow> Returned f s'
           | y # rest' \<Rightarrow>
               if \<not> available f then Chained (eventual f) rest s'
               else if failed f then Returned f s'
               else do_for_each_loop y rest' action s'))"

definition do_for_each ::
  "'x list \<Rightarrow> ('x \<Rightarrow> ('s, unit, 'e) async_action) \<Rightarrow> 's
     \<Rightarrow> ('x, 's, 'e) do_for_each_result" where
  "do_for_each xs action s =
     (case xs of
        [] \<Rightarrow> Returned (Available (Value ())) s
      | x # rest \<Rightarrow> do_for_each_loop x rest action s)"

text \<open>
  An action that also records, in the state, the elements it is called with: the
  record is the list of the action's invocations.
\<close>

definition traced ::
  "('x \<Rightarrow> ('s, unit, 'e) async_action) \<Rightarrow> 'x \<Rightarrow> ('x list \<times> 's, unit, 'e) async_action" where
  "traced action x = (\<lambda>(calls, s). case action x s of (r, s') \<Rightarrow> (r, (calls @ [x], s')))"

section \<open>parallel_for_each\<close>

text \<open>
  \<^verbatim>\<open>parallel_for_each_state\<close> (lines 48-62). \<^verbatim>\<open>waiting\<close> is a \<^verbatim>\<open>size_t\<close>: it
  counts the continuations that are alive, plus one, and each of them occupies memory, so
  \<^verbatim>\<open>++waiting\<close> cannot wrap; the wrap-around of \<^verbatim>\<open>--waiting\<close> at zero is written
  out.
\<close>

record 'e parallel_for_each_state =
  ex :: "'e option"
  waiting :: nat
  pr :: "(unit, 'e) promise"

definition decrement :: "nat \<Rightarrow> nat" where
  "decrement n = (if n = 0 then 2 ^ 64 - 1 else n - 1)"

definition complete :: "'e parallel_for_each_state \<Rightarrow> 'e parallel_for_each_state" where
  "complete state =
     (let state' = state\<lparr>waiting := decrement (waiting state)\<rparr> in
      if waiting state' = 0 then
        (case ex state' of
           Some e \<Rightarrow> state'\<lparr>pr := set_exception (pr state') e\<rparr>
         | None \<Rightarrow> state'\<lparr>pr := set_value (pr state') ()\<rparr>)
      else state')"

text \<open>
  The lambda given to \<^verbatim>\<open>then_wrapped\<close> (lines 93-103), called with the future once
  it is ready, and the \<^verbatim>\<open>catch\<close> block (lines 104-109).
\<close>

definition parallel_for_each_lambda ::
  "'e parallel_for_each_state \<Rightarrow> (unit, 'e) outcome \<Rightarrow> 'e parallel_for_each_state" where
  "parallel_for_each_lambda state f =
     (case f of
        Exception e \<Rightarrow> complete (if ex state = None then state\<lparr>ex := Some e\<rparr> else state)
      | Value u \<Rightarrow> complete state)"

definition parallel_for_each_catch ::
  "'e parallel_for_each_state \<Rightarrow> 'e \<Rightarrow> 'e parallel_for_each_state" where
  "parallel_for_each_catch state e =
     complete (if ex state = None then state\<lparr>ex := Some e\<rparr> else state)"

text \<open>
  The \<^verbatim>\<open>while\<close> loop (lines 90-110). Modelled from the spec:
  \<^verbatim>\<open>future::then_wrapped\<close> of \<^verbatim>\<open>future.hh\<close> runs the lambda at once on a future
  that is ready (section 3) and keeps it for later on a future that is not: the second
  component lists, in launch order, the outcomes that the futures with a lambda attached
  will have.
\<close>

fun parallel_for_each_loop ::
  "'x list \<Rightarrow> ('x \<Rightarrow> (unit, 'e) invoked)
     \<Rightarrow> 'e parallel_for_each_state \<times> (unit, 'e) outcome list
     \<Rightarrow> 'e parallel_for_each_state \<times> (unit, 'e) outcome list" where
  "parallel_for_each_loop [] func (state, attached) = (state, attached)"
| "parallel_for_each_loop (x # rest) func (state, attached) =
     (let state1 = state\<lparr>waiting := waiting state + 1\<rparr> in
      case func x of
        Throws e \<Rightarrow> parallel_for_each_loop rest func (parallel_for_each_catch state1 e, attached)
      | Returns (Available f) \<Rightarrow>
          parallel_for_each_loop rest func (parallel_for_each_lambda state1 f, attached)
      | Returns (NotAvailable f) \<Rightarrow>
          parallel_for_each_loop rest func (state1, attached @ [f]))"

text \<open>
  \<^verbatim>\<open>parallel_for_each\<close> (lines 80-115): a ready future for an empty range, without
  any state; otherwise the state as it is when the function returns the future of
  \<^verbatim>\<open>state.pr\<close>, with the lambdas that are still attached.
\<close>

datatype 'e parallel_for_each_result =
  Immediate "(unit, 'e) future"
| Launched "'e parallel_for_each_state" "(unit, 'e) outcome list"

definition parallel_for_each ::
  "'x list \<Rightarrow> ('x \<Rightarrow> (unit, 'e) invoked) \<Rightarrow> 'e parallel_for_each_result" where
  "parallel_for_each xs func =
     (if xs = [] then Immediate (Available (Value ()))
      else
        (let state = \<lparr>ex = None, waiting = 0, pr = Unset\<rparr>;
             state = state\<lparr>waiting := waiting state + 1\<rparr>;
             (state, attached) = parallel_for_each_loop xs func (state, []);
             state = complete state
         in Launched state attached))"

text \<open>
  The state of the returned future after the pending futures have resolved in the order
  \<open>order\<close>, which lists their outcomes as they arrive: each arrival runs the lambda.
\<close>

fun parallel_for_each_future ::
  "'e parallel_for_each_result \<Rightarrow> (unit, 'e) outcome list \<Rightarrow> (unit, 'e) promise" where
  "parallel_for_each_future (Immediate f) order = Resolved (eventual f)"
| "parallel_for_each_future (Launched state attached) order =
     pr (foldl parallel_for_each_lambda state order)"

text \<open>The futures that were not available when \<^verbatim>\<open>func\<close> returned them.\<close>

fun pending :: "('a, 'e) invoked list \<Rightarrow> ('a, 'e) outcome list" where
  "pending [] = []"
| "pending (Throws e # cs) = pending cs"
| "pending (Returns (Available f) # cs) = pending cs"
| "pending (Returns (NotAvailable f) # cs) = f # pending cs"

text \<open>The exceptions of the invocations that fail, by a throw or by a failed future.\<close>

definition failures :: "('a, 'e) invoked list \<Rightarrow> 'e list" where
  "failures cs = List.map_filter failure cs"

text \<open>
  Invariants of the state, used in the proofs: an exception is stored only if it is one
  of the exceptions \<open>F\<close> seen so far, and none is stored only if none was seen.
\<close>

definition noted :: "'e parallel_for_each_state \<Rightarrow> 'e set \<Rightarrow> bool" where
  "noted st F = ((ex st = None \<longrightarrow> F = {}) \<and> (\<forall>e. ex st = Some e \<longrightarrow> e \<in> F))"

text \<open>
  The failures that the loop sees at once (throws and ready failed futures), and those
  among the outcomes that arrive later.
\<close>

definition inline_failures :: "('a, 'e) invoked list \<Rightarrow> 'e set" where
  "inline_failures cs = {e. Throws e \<in> set cs \<or> Returns (Available (Exception e)) \<in> set cs}"

definition late_failures :: "('a, 'e) outcome list \<Rightarrow> 'e set" where
  "late_failures os = {e. Exception e \<in> set os}"

section \<open>when_all\<close>

text \<open>
  \<^verbatim>\<open>when_all_state\<close> (lines 391-420). The futures of the tuple may have different
  value types; nothing in the class looks at the values, so the tuple is a list of
  futures of one type. Modelled from the spec: the reference count of
  \<^verbatim>\<open>lw_shared_ptr\<close> (\<^verbatim>\<open>shared_ptr.hh\<close>; sections 5 and 9, "last owner releases, run
  finalizer") is the field \<open>use_count\<close>, and dropping a reference is \<open>release\<close>.
\<close>

record ('a, 'e) when_all_state =
  tuple :: "('a, 'e) future list"
  p :: "(('a, 'e) future list, 'e) promise"
  use_count :: nat

text \<open>The destructor (lines 397-399).\<close>

definition destructor :: "('a, 'e) when_all_state \<Rightarrow> ('a, 'e) when_all_state" where
  "destructor s = s\<lparr>p := set_value (p s) (tuple s)\<rparr>"

definition release :: "('a, 'e) when_all_state \<Rightarrow> ('a, 'e) when_all_state" where
  "release s =
     (let s' = s\<lparr>use_count := use_count s - 1\<rparr> in
      if use_count s' = 0 then destructor s' else s')"

text \<open>
  \<^verbatim>\<open>wait<Idx>\<close> (lines 400-410). The slot of a future that is not available is
  assigned the future of \<^verbatim>\<open>then_wrapped\<close>, which is pending until the lambda has
  returned the completed future and then has the same outcome; the lambda holds a
  reference to the state.
\<close>

definition wait :: "nat \<Rightarrow> ('a, 'e) when_all_state \<Rightarrow> ('a, 'e) when_all_state" where
  "wait idx s =
     (let f = tuple s ! idx in
      if \<not> available f then
        s\<lparr>tuple := (tuple s)[idx := NotAvailable (eventual f)], use_count := use_count s + 1\<rparr>
      else s)"

text \<open>
  \<^verbatim>\<open>wait_all\<close> (lines 411-415) calls \<^verbatim>\<open>wait<Idx>\<close> for every index of the tuple;
  C++ leaves the order of these calls open, and the model takes them in ascending order.
\<close>

definition wait_all :: "('a, 'e) when_all_state \<Rightarrow> ('a, 'e) when_all_state" where
  "wait_all s = foldl (\<lambda>s idx. wait idx s) s [0..<length (tuple s)]"

text \<open>
  \<^verbatim>\<open>when_all\<close>, variadic version (lines 432-438): the state as it is when the
  function has returned, after the local reference \<^verbatim>\<open>s\<close> has been dropped.
\<close>

definition when_all :: "('a, 'e) future list \<Rightarrow> ('a, 'e) when_all_state" where
  "when_all futs = release (wait_all \<lparr>tuple = futs, p = Unset, use_count = 1\<rparr>)"

text \<open>
  The input future of slot \<open>idx\<close> resolves: the lambda of lines 405-407 runs and hands
  the completed future to the slot, then the lambda is destroyed and its reference
  dropped. A future resolves once, so nothing happens for a slot that is ready.
\<close>

definition when_all_resolved ::
  "('a, 'e) when_all_state \<Rightarrow> nat \<Rightarrow> ('a, 'e) when_all_state" where
  "when_all_resolved s idx =
     (if idx < length (tuple s) then
        (case tuple s ! idx of
           NotAvailable out \<Rightarrow> release (s\<lparr>tuple := (tuple s)[idx := Available out]\<rparr>)
         | Available out \<Rightarrow> s)
      else s)"

text \<open>
  The promise behind the future that \<^verbatim>\<open>when_all\<close> returned, after the inputs have
  resolved in the order \<open>order\<close>, a list of slot indices.
\<close>

definition when_all_future ::
  "('a, 'e) future list \<Rightarrow> nat list \<Rightarrow> (('a, 'e) future list, 'e) promise" where
  "when_all_future futs order = p (foldl when_all_resolved (when_all futs) order)"

text \<open>
  \<^verbatim>\<open>complete_when_all\<close> (lines 458-475); \<^verbatim>\<open>pos\<close> is an index into the vector.
  The \<^verbatim>\<open>while\<close> loop of lines 463-465 compares \<^verbatim>\<open>pos\<close> with \<^verbatim>\<open>futures.end()\<close>
  by \<^verbatim>\<open>!=\<close>; an iterator into the vector is never beyond the end, so the model's
  \<open><\<close> is the same test.
\<close>

function skip_available :: "('a, 'e) future list \<Rightarrow> nat \<Rightarrow> nat" where
  "skip_available futures pos =
     (if pos < length futures \<and> available (futures ! pos)
      then skip_available futures (Suc pos) else pos)"
  by pat_completeness auto
termination
  by (relation "measure (\<lambda>(futures, pos). length futures - pos)") auto

declare skip_available.simps [simp del]

text \<open>
  The function returns a ready future holding the vector (\<open>Completed\<close>), or the future
  of \<^verbatim>\<open>pos->then_wrapped(...)\<close>, whose lambda holds the vector and \<^verbatim>\<open>pos\<close>
  (\<open>Awaiting\<close>).
\<close>

datatype ('a, 'e) when_all_vector =
  Completed "('a, 'e) future list"
| Awaiting "('a, 'e) future list" nat

definition complete_when_all ::
  "('a, 'e) future list \<Rightarrow> nat \<Rightarrow> ('a, 'e) when_all_vector" where
  "complete_when_all futures pos =
     (let pos = skip_available futures pos in
      if pos = length futures then Completed futures else Awaiting futures pos)"

text \<open>\<^verbatim>\<open>when_all\<close>, iterator version (lines 488-499).\<close>

definition when_all_iterators :: "('a, 'e) future list \<Rightarrow> ('a, 'e) when_all_vector" where
  "when_all_iterators futs = complete_when_all futs 0"

text \<open>
  The input future at index \<open>i\<close> resolves. At \<^verbatim>\<open>pos\<close> the lambda of lines 471-474
  runs: it stores the completed future and calls \<^verbatim>\<open>complete_when_all\<close> on the next
  position. Anywhere else no lambda is attached, and the future in the vector turns ready
  where it is.
\<close>

fun when_all_vector_resolved ::
  "('a, 'e) when_all_vector \<Rightarrow> nat \<Rightarrow> ('a, 'e) when_all_vector" where
  "when_all_vector_resolved (Completed futures) i = Completed futures"
| "when_all_vector_resolved (Awaiting futures pos) i =
     (if i < length futures then
        (case futures ! i of
           Available out \<Rightarrow> Awaiting futures pos
         | NotAvailable out \<Rightarrow>
             if i = pos then complete_when_all (futures[pos := Available out]) (Suc pos)
             else Awaiting (futures[i := Available out]) pos)
      else Awaiting futures pos)"

fun vector_future :: "('a, 'e) when_all_vector \<Rightarrow> (('a, 'e) future list, 'e) promise" where
  "vector_future (Completed futures) = Resolved (Value futures)"
| "vector_future (Awaiting futures pos) = Unset"

definition when_all_iterators_future ::
  "('a, 'e) future list \<Rightarrow> nat list \<Rightarrow> (('a, 'e) future list, 'e) promise" where
  "when_all_iterators_future futs order =
     vector_future (foldl when_all_vector_resolved (when_all_iterators futs) order)"

text \<open>The inputs as the result must hold them: every future completed, in input order.\<close>

definition completed :: "('a, 'e) future list \<Rightarrow> ('a, 'e) future list" where
  "completed futs = map (\<lambda>f. Available (eventual f)) futs"

definition unavailable :: "('a, 'e) future list \<Rightarrow> nat set" where
  "unavailable futs = {i. i < length futs \<and> \<not> available (futs ! i)}"

text \<open>
  Used in the proofs: the futures of the inputs after the input at index \<open>i\<close> has
  resolved; the number of futures that are not available; and the invariant that ties
  the promise and the reference count of a \<^verbatim>\<open>when_all_state\<close> to that number.
\<close>

definition arrive :: "('a, 'e) future list \<Rightarrow> nat \<Rightarrow> ('a, 'e) future list" where
  "arrive fs i =
     (if i < length fs then
        (case fs ! i of NotAvailable out \<Rightarrow> fs[i := Available out] | Available out \<Rightarrow> fs)
      else fs)"

definition outstanding :: "('a, 'e) future list \<Rightarrow> nat" where
  "outstanding fs = length (filter (\<lambda>f. \<not> available f) fs)"

definition settled :: "('a, 'e) when_all_state \<Rightarrow> bool" where
  "settled s =
     (if outstanding (tuple s) = 0 then p s = Resolved (Value (tuple s))
      else p s = Unset \<and> use_count s = outstanding (tuple s))"

section \<open>map_reduce\<close>

text \<open>
  \<^verbatim>\<open>map_reduce\<close> with an initial value and a binary function (lines 605-632). The
  variable \<^verbatim>\<open>ret\<close> holds a future that is built from the futures before it, so it
  is a term over the ways the function makes one: \<^verbatim>\<open>make_ready_future<>()\<close> in line
  614 (\<open>MadeReady\<close>); \<^verbatim>\<open>then_wrapped\<close> in line 617 on the future of a mapper that is
  not available, with the number of the element, the outcome that future gets later and
  the \<^verbatim>\<open>ret\<close> that the lambda holds (\<open>ThenWrapped\<close>); \<^verbatim>\<open>then_wrapped\<close> in line 622
  on the \<^verbatim>\<open>ret\<close> that the lambda held, with the exception that its lambda returns
  (\<open>ThenFail\<close>).

  \<^verbatim>\<open>reduce\<close> may throw: it returns \<open>Inl\<close> of the exception or \<open>Inr\<close> of the new
  accumulator. When it throws, the model leaves \<^verbatim>\<open>s->result\<close> as it was.
\<close>

datatype ('v, 'e) ret =
  MadeReady
| ThenWrapped nat "('v, 'e) outcome" "('v, 'e) ret"
| ThenFail "('v, 'e) ret" 'e

text \<open>The lambda of lines 617-627, called with the mapper's future once it is ready.\<close>

definition map_reduce_lambda ::
  "('a \<Rightarrow> 'v \<Rightarrow> 'e + 'a) \<Rightarrow> 'a \<Rightarrow> ('v, 'e) outcome \<Rightarrow> ('v, 'e) ret \<Rightarrow> 'a \<times> ('v, 'e) ret" where
  "map_reduce_lambda reduce result f ret =
     (case get0 f of
        Inl e \<Rightarrow> (result, ThenFail ret e)
      | Inr v \<Rightarrow>
          (case reduce result v of
             Inl e \<Rightarrow> (result, ThenFail ret e)
           | Inr result' \<Rightarrow> (result', ret)))"

text \<open>The \<^verbatim>\<open>while\<close> loop (lines 616-628); \<open>i\<close> numbers the elements.\<close>

fun map_reduce_loop ::
  "'x list \<Rightarrow> nat \<Rightarrow> ('x \<Rightarrow> ('v, 'e) invoked) \<Rightarrow> ('a \<Rightarrow> 'v \<Rightarrow> 'e + 'a)
     \<Rightarrow> 'a \<times> ('v, 'e) ret \<Rightarrow> 'a \<times> ('v, 'e) ret" where
  "map_reduce_loop [] i mapper reduce (result, ret) = (result, ret)"
| "map_reduce_loop (x # xs) i mapper reduce (result, ret) =
     (case futurize_apply (mapper x) of
        Available f \<Rightarrow>
          map_reduce_loop xs (Suc i) mapper reduce (map_reduce_lambda reduce result f ret)
      | NotAvailable f \<Rightarrow>
          map_reduce_loop xs (Suc i) mapper reduce (result, ThenWrapped i f ret))"

text \<open>
  The state when \<^verbatim>\<open>map_reduce\<close> returns: \<^verbatim>\<open>s->result\<close> and the last \<^verbatim>\<open>ret\<close>, to
  which line 629 attaches the lambda that delivers \<^verbatim>\<open>s->result\<close>.
\<close>

definition map_reduce ::
  "'x list \<Rightarrow> ('x \<Rightarrow> ('v, 'e) invoked) \<Rightarrow> 'a \<Rightarrow> ('a \<Rightarrow> 'v \<Rightarrow> 'e + 'a)
     \<Rightarrow> 'a \<times> ('v, 'e) ret" where
  "map_reduce xs mapper initial reduce = map_reduce_loop xs 0 mapper reduce (initial, MadeReady)"

text \<open>The future of the mapper of element \<open>i\<close> resolves, and its lambda runs.\<close>

fun mapper_resolved ::
  "('a \<Rightarrow> 'v \<Rightarrow> 'e + 'a) \<Rightarrow> 'a \<times> ('v, 'e) ret \<Rightarrow> nat \<Rightarrow> 'a \<times> ('v, 'e) ret" where
  "mapper_resolved reduce (result, MadeReady) i = (result, MadeReady)"
| "mapper_resolved reduce (result, ThenFail ret e) i =
     (case mapper_resolved reduce (result, ret) i of
        (result', ret') \<Rightarrow> (result', ThenFail ret' e))"
| "mapper_resolved reduce (result, ThenWrapped j f ret) i =
     (if i = j then map_reduce_lambda reduce result f ret
      else (case mapper_resolved reduce (result, ret) i of
              (result', ret') \<Rightarrow> (result', ThenWrapped j f ret')))"

text \<open>
  What a \<^verbatim>\<open>ret\<close> is resolved with, if it is resolved: the lambda of lines 622-625
  runs when the future it is attached to is ready, ignores it and returns the exception.
\<close>

fun ret_outcome :: "('v, 'e) ret \<Rightarrow> (unit, 'e) outcome option" where
  "ret_outcome MadeReady = Some (Value ())"
| "ret_outcome (ThenWrapped i f ret) = None"
| "ret_outcome (ThenFail ret e) =
     (case ret_outcome ret of None \<Rightarrow> None | Some rf \<Rightarrow> Some (Exception e))"

text \<open>
  The future that \<^verbatim>\<open>map_reduce\<close> returned (line 629), after the pending mappers have
  resolved in the order \<open>order\<close>, a list of element numbers.
\<close>

fun delivered :: "'a \<times> ('v, 'e) ret \<Rightarrow> ('a, 'e) promise" where
  "delivered (result, ret) =
     (case ret_outcome ret of
        None \<Rightarrow> Unset
      | Some (Value u) \<Rightarrow> Resolved (Value result)
      | Some (Exception e) \<Rightarrow> Resolved (Exception e))"

definition map_reduce_future ::
  "'x list \<Rightarrow> ('x \<Rightarrow> ('v, 'e) invoked) \<Rightarrow> 'a \<Rightarrow> ('a \<Rightarrow> 'v \<Rightarrow> 'e + 'a) \<Rightarrow> nat list
     \<Rightarrow> ('a, 'e) promise" where
  "map_reduce_future xs mapper initial reduce order =
     delivered (foldl (mapper_resolved reduce) (map_reduce xs mapper initial reduce) order)"

text \<open>
  \<^verbatim>\<open>map_reduce\<close> with a reducer object (lines 546-568). A call of the reducer throws
  or returns a future, and leaves the reducer in a new state \<open>'r\<close>. The futures \<^verbatim>\<open>ret\<close>
  are: a ready future (\<open>Settled\<close>: line 553, or what an inner lambda returned); the
  future that a call of the reducer returned, not available yet, with the outcome it gets
  later (\<open>Reducing\<close>); \<^verbatim>\<open>then_wrapped\<close> in line 556 on the future of a mapper that is
  not available (\<open>Outer\<close>); \<^verbatim>\<open>then_wrapped\<close> in line 557 on a \<^verbatim>\<open>ret\<close> that is not
  ready, whose lambda holds the mapper's completed future (\<open>Inner\<close>).
\<close>

datatype ('v, 'e) reducer_ret =
  Settled "(unit, 'e) outcome"
| Reducing "(unit, 'e) outcome"
| Outer nat "('v, 'e) outcome" "('v, 'e) reducer_ret"
| Inner "('v, 'e) outcome" "('v, 'e) reducer_ret"

text \<open>
  The inner lambda (lines 557-564), called with \<^verbatim>\<open>rf\<close> once it is ready. An
  exception that \<^verbatim>\<open>f.get()\<close> rethrows, or that the reducer throws, becomes a failed
  future.
\<close>

definition inner_lambda ::
  "('r \<Rightarrow> 'v \<Rightarrow> (unit, 'e) invoked \<times> 'r) \<Rightarrow> 'r \<Rightarrow> ('v, 'e) outcome \<Rightarrow> (unit, 'e) outcome
     \<Rightarrow> 'r \<times> ('v, 'e) reducer_ret" where
  "inner_lambda r st f rf =
     (case rf of
        Exception e \<Rightarrow> (st, Settled (Exception e))
      | Value u \<Rightarrow>
          (case get0 f of
             Inl e \<Rightarrow> (st, Settled (Exception e))
           | Inr v \<Rightarrow>
               (case r st v of
                  (c, st') \<Rightarrow>
                    (case futurize_apply c of
                       Available out \<Rightarrow> (st', Settled out)
                     | NotAvailable out \<Rightarrow> (st', Reducing out)))))"

text \<open>
  The outer lambda (lines 556-565), called with the mapper's future once it is ready:
  \<^verbatim>\<open>then_wrapped\<close> runs the inner lambda at once when \<^verbatim>\<open>ret\<close> is ready.
\<close>

definition outer_lambda ::
  "('r \<Rightarrow> 'v \<Rightarrow> (unit, 'e) invoked \<times> 'r) \<Rightarrow> 'r \<Rightarrow> ('v, 'e) outcome \<Rightarrow> ('v, 'e) reducer_ret
     \<Rightarrow> 'r \<times> ('v, 'e) reducer_ret" where
  "outer_lambda r st f ret =
     (case ret of
        Settled rf \<Rightarrow> inner_lambda r st f rf
      | Reducing out \<Rightarrow> (st, Inner f ret)
      | Outer j g ret' \<Rightarrow> (st, Inner f ret)
      | Inner g ret' \<Rightarrow> (st, Inner f ret))"

fun map_reduce_reducer_loop ::
  "'x list \<Rightarrow> nat \<Rightarrow> ('x \<Rightarrow> ('v, 'e) invoked) \<Rightarrow> ('r \<Rightarrow> 'v \<Rightarrow> (unit, 'e) invoked \<times> 'r)
     \<Rightarrow> 'r \<times> ('v, 'e) reducer_ret \<Rightarrow> 'r \<times> ('v, 'e) reducer_ret" where
  "map_reduce_reducer_loop [] i mapper r (st, ret) = (st, ret)"
| "map_reduce_reducer_loop (x # xs) i mapper r (st, ret) =
     (case futurize_apply (mapper x) of
        Available f \<Rightarrow> map_reduce_reducer_loop xs (Suc i) mapper r (outer_lambda r st f ret)
      | NotAvailable f \<Rightarrow> map_reduce_reducer_loop xs (Suc i) mapper r (st, Outer i f ret))"

definition map_reduce_reducer ::
  "'x list \<Rightarrow> ('x \<Rightarrow> ('v, 'e) invoked) \<Rightarrow> ('r \<Rightarrow> 'v \<Rightarrow> (unit, 'e) invoked \<times> 'r) \<Rightarrow> 'r
     \<Rightarrow> 'r \<times> ('v, 'e) reducer_ret" where
  "map_reduce_reducer xs mapper r st =
     map_reduce_reducer_loop xs 0 mapper r (st, Settled (Value ()))"

text \<open>
  What can happen after \<^verbatim>\<open>map_reduce\<close> has returned: the future of the mapper of
  element \<open>i\<close> resolves, or the future that the last call of the reducer returned
  resolves. The lambda attached to that future runs, and every inner lambda whose
  \<^verbatim>\<open>ret\<close> has become ready by that runs after it.
\<close>

datatype reducer_event = MapperResolved nat | ReducerResolved

fun reducer_step ::
  "('r \<Rightarrow> 'v \<Rightarrow> (unit, 'e) invoked \<times> 'r) \<Rightarrow> 'r \<times> ('v, 'e) reducer_ret \<Rightarrow> reducer_event
     \<Rightarrow> 'r \<times> ('v, 'e) reducer_ret" where
  "reducer_step r (st, Settled rf) ev = (st, Settled rf)"
| "reducer_step r (st, Reducing out) ev =
     (case ev of
        MapperResolved i \<Rightarrow> (st, Reducing out)
      | ReducerResolved \<Rightarrow> (st, Settled out))"
| "reducer_step r (st, Outer j f ret) ev =
     (if ev = MapperResolved j then outer_lambda r st f ret
      else (case reducer_step r (st, ret) ev of
              (st', ret') \<Rightarrow> (st', Outer j f ret')))"
| "reducer_step r (st, Inner f ret) ev =
     (case reducer_step r (st, ret) ev of
        (st', ret') \<Rightarrow> outer_lambda r st' f ret')"

text \<open>
  \<^verbatim>\<open>maybe_call_get\<close> (lines 501-536): when \<^verbatim>\<open>ret\<close> has a value the result is what
  the reducer's \<^verbatim>\<open>get()\<close> gives, a value or an exception (for a reducer without
  \<^verbatim>\<open>get()\<close>, the unit value; for a \<^verbatim>\<open>get()\<close> that returns a future, the outcome of
  that future); a failed \<^verbatim>\<open>ret\<close> passes its exception on.
\<close>

fun maybe_call_get ::
  "('r \<Rightarrow> ('u, 'e) outcome) \<Rightarrow> 'r \<times> ('v, 'e) reducer_ret \<Rightarrow> ('u, 'e) promise" where
  "maybe_call_get get (st, Settled (Value u)) = Resolved (get st)"
| "maybe_call_get get (st, Settled (Exception e)) = Resolved (Exception e)"
| "maybe_call_get get (st, Reducing out) = Unset"
| "maybe_call_get get (st, Outer j f ret) = Unset"
| "maybe_call_get get (st, Inner f ret) = Unset"

definition map_reduce_reducer_future ::
  "'x list \<Rightarrow> ('x \<Rightarrow> ('v, 'e) invoked) \<Rightarrow> ('r \<Rightarrow> 'v \<Rightarrow> (unit, 'e) invoked \<times> 'r) \<Rightarrow> 'r
     \<Rightarrow> ('r \<Rightarrow> ('u, 'e) outcome) \<Rightarrow> reducer_event list \<Rightarrow> ('u, 'e) promise" where
  "map_reduce_reducer_future xs mapper r st get events =
     maybe_call_get get (foldl (reducer_step r) (map_reduce_reducer xs mapper r st) events)"

text \<open>
  The mapped futures of the range, in input order.
\<close>

definition mapped :: "('x \<Rightarrow> ('v, 'e) invoked) \<Rightarrow> 'x list \<Rightarrow> ('v, 'e) future list" where
  "mapped mapper xs = map (\<lambda>x. futurize_apply (mapper x)) xs"

text \<open>
  \<^verbatim>\<open>adder\<close> (lines 677-691), a reducer: its call adds the value to \<^verbatim>\<open>_result\<close> and
  returns a ready future.
\<close>

definition adder :: "'a::plus \<Rightarrow> 'a \<Rightarrow> (unit, 'e) invoked \<times> 'a" where
  "adder result value = (Returns (Available (Value ())), result + value)"

text \<open>
  The reducer overload in the specification's words (sections 4.5 and 7): the values are
  folded in input order; the first failure, of a mapper or of a call of the reducer, is
  the outcome, and the reducer is not called after it.
\<close>

fun in_order ::
  "('r \<Rightarrow> 'v \<Rightarrow> (unit, 'e) invoked \<times> 'r) \<Rightarrow> 'r \<Rightarrow> ('v, 'e) outcome list
     \<Rightarrow> 'r \<times> (unit, 'e) outcome" where
  "in_order r st [] = (st, Value ())"
| "in_order r st (Exception e # fs) = (st, Exception e)"
| "in_order r st (Value v # fs) =
     (case r st v of
        (c, st') \<Rightarrow>
          (case eventual (futurize_apply c) of
             Value u \<Rightarrow> in_order r st' fs
           | Exception e \<Rightarrow> (st', Exception e)))"

text \<open>
  What the overload with an initial value does, element by element. Each element has a
  slot: its mapper's future is not ready yet (\<open>Unready\<close>), or its lambda has run and
  either folded the value into the accumulator (\<open>Folded\<close>) or caught an exception
  (\<open>Caught\<close>). A lambda runs when its mapper's future is ready, at the launch or when
  the future resolves, whatever the slots of the other elements hold. When no slot is
  unready the outcome is the exception of the last slot, in input order, that caught one,
  and the accumulator if none did.
\<close>

datatype ('v, 'e) slot = Unready "('v, 'e) outcome" | Folded | Caught 'e

definition fold_step ::
  "('a \<Rightarrow> 'v \<Rightarrow> 'e + 'a) \<Rightarrow> 'a \<Rightarrow> ('v, 'e) outcome \<Rightarrow> 'a \<times> ('v, 'e) slot" where
  "fold_step reduce result f =
     (case f of
        Exception e \<Rightarrow> (result, Caught e)
      | Value v \<Rightarrow>
          (case reduce result v of
             Inl e \<Rightarrow> (result, Caught e)
           | Inr result' \<Rightarrow> (result', Folded)))"

fun launch_folds ::
  "('v, 'e) future list \<Rightarrow> ('a \<Rightarrow> 'v \<Rightarrow> 'e + 'a) \<Rightarrow> 'a \<times> ('v, 'e) slot list
     \<Rightarrow> 'a \<times> ('v, 'e) slot list" where
  "launch_folds [] reduce (result, slots) = (result, slots)"
| "launch_folds (Available f # fs) reduce (result, slots) =
     (case fold_step reduce result f of
        (result', s) \<Rightarrow> launch_folds fs reduce (result', slots @ [s]))"
| "launch_folds (NotAvailable f # fs) reduce (result, slots) =
     launch_folds fs reduce (result, slots @ [Unready f])"

fun fold_arrived ::
  "('a \<Rightarrow> 'v \<Rightarrow> 'e + 'a) \<Rightarrow> 'a \<times> ('v, 'e) slot list \<Rightarrow> nat \<Rightarrow> 'a \<times> ('v, 'e) slot list" where
  "fold_arrived reduce (result, slots) i =
     (if i < length slots then
        (case slots ! i of
           Unready f \<Rightarrow>
             (case fold_step reduce result f of (result', s) \<Rightarrow> (result', slots[i := s]))
         | Folded \<Rightarrow> (result, slots)
         | Caught e \<Rightarrow> (result, slots))
      else (result, slots))"

fun catches :: "('v, 'e) slot list \<Rightarrow> 'e list" where
  "catches [] = []"
| "catches (Caught e # ss) = e # catches ss"
| "catches (Folded # ss) = catches ss"
| "catches (Unready f # ss) = catches ss"

fun unready :: "('v, 'e) slot \<Rightarrow> bool" where
  "unready (Unready f) = True"
| "unready Folded = False"
| "unready (Caught e) = False"

fun folds_outcome :: "'a \<times> ('v, 'e) slot list \<Rightarrow> ('a, 'e) promise" where
  "folds_outcome (result, slots) =
     (if list_ex unready slots then Unset
      else if catches slots = [] then Resolved (Value result)
      else Resolved (Exception (last (catches slots))))"

text \<open>
  Used in the statements and proofs. For the reducer overload: the outcome a \<^verbatim>\<open>ret\<close>
  will have when the inner lambdas run from the inside out; the futures it still waits
  for (\<open>awaited\<close>: mappers by number, and a pending call of the reducer), the mappers
  among them, and a bound on the reducer's futures still to come; and the invariant that
  an inner lambda waits only for a \<^verbatim>\<open>ret\<close> that is not ready. For the other overload:
  the \<^verbatim>\<open>ret\<close> that a list of slots stands for.
\<close>

definition next_fold ::
  "('r \<Rightarrow> 'v \<Rightarrow> (unit, 'e) invoked \<times> 'r) \<Rightarrow> 'r \<times> (unit, 'e) outcome \<Rightarrow> ('v, 'e) outcome
     \<Rightarrow> 'r \<times> (unit, 'e) outcome" where
  "next_fold r c f =
     (case c of
        (st, Exception e) \<Rightarrow> (st, Exception e)
      | (st, Value u) \<Rightarrow>
          (case f of
             Exception e \<Rightarrow> (st, Exception e)
           | Value v \<Rightarrow> (case r st v of (c, st') \<Rightarrow> (st', eventual (futurize_apply c)))))"

fun forecast ::
  "('r \<Rightarrow> 'v \<Rightarrow> (unit, 'e) invoked \<times> 'r) \<Rightarrow> 'r \<times> ('v, 'e) reducer_ret
     \<Rightarrow> 'r \<times> (unit, 'e) outcome" where
  "forecast r (st, Settled rf) = (st, rf)"
| "forecast r (st, Reducing out) = (st, out)"
| "forecast r (st, Outer j f ret) = next_fold r (forecast r (st, ret)) f"
| "forecast r (st, Inner f ret) = next_fold r (forecast r (st, ret)) f"

fun awaited :: "('v, 'e) reducer_ret \<Rightarrow> reducer_event list" where
  "awaited (Settled rf) = []"
| "awaited (Reducing out) = [ReducerResolved]"
| "awaited (Outer j f ret) = MapperResolved j # awaited ret"
| "awaited (Inner f ret) = awaited ret"

fun mappers :: "('v, 'e) reducer_ret \<Rightarrow> nat list" where
  "mappers (Settled rf) = []"
| "mappers (Reducing out) = []"
| "mappers (Outer j f ret) = j # mappers ret"
| "mappers (Inner f ret) = mappers ret"

fun weight :: "('v, 'e) reducer_ret \<Rightarrow> nat" where
  "weight (Settled rf) = 0"
| "weight (Reducing out) = 1"
| "weight (Outer j f ret) = Suc (weight ret)"
| "weight (Inner f ret) = Suc (weight ret)"

fun resolve_mapper :: "nat list \<Rightarrow> reducer_event \<Rightarrow> nat list" where
  "resolve_mapper l (MapperResolved i) = remove1 i l"
| "resolve_mapper l ReducerResolved = l"

fun tidy :: "('v, 'e) reducer_ret \<Rightarrow> bool" where
  "tidy (Settled rf) = True"
| "tidy (Reducing out) = True"
| "tidy (Outer j f ret) = tidy ret"
| "tidy (Inner f ret) = (tidy ret \<and> (case ret of Settled rf \<Rightarrow> False | _ \<Rightarrow> True))"

fun wrap :: "nat \<Rightarrow> ('v, 'e) slot \<Rightarrow> ('v, 'e) ret \<Rightarrow> ('v, 'e) ret" where
  "wrap k (Unready f) ret = ThenWrapped k f ret"
| "wrap k Folded ret = ret"
| "wrap k (Caught e) ret = ThenFail ret e"

definition chain :: "('v, 'e) slot list \<Rightarrow> ('v, 'e) ret" where
  "chain slots = foldl (\<lambda>ret (k, s). wrap k s ret) MadeReady (enumerate 0 slots)"

definition unready_at :: "('v, 'e) slot list \<Rightarrow> nat set" where
  "unready_at slots = {i. i < length slots \<and> unready (slots ! i)}"

text \<open>
  A slot agrees with the outcome of its mapper's future when \<^verbatim>\<open>reduce\<close> does not
  throw: it caught an exception exactly when the mapper failed with it.
\<close>

fun agrees :: "('v, 'e) slot \<Rightarrow> ('v, 'e) outcome \<Rightarrow> bool" where
  "agrees (Unready f) out = (f = out)"
| "agrees Folded out = (\<not> failed (Available out))"
| "agrees (Caught e) out = (out = Exception e)"

fun exceptions :: "('v, 'e) outcome list \<Rightarrow> 'e list" where
  "exceptions [] = []"
| "exceptions (Exception e # outs) = e # exceptions outs"
| "exceptions (Value v # outs) = exceptions outs"

text \<open>Inputs for the examples.\<close>

definition late_or_thrown :: "nat \<Rightarrow> (unit, string) invoked" where
  "late_or_thrown x =
     (if x = 1 then Returns (NotAvailable (Exception ''late''))
      else if x = 2 then Throws ''thrown''
      else Returns (NotAvailable (Value ())))"

definition late_first :: "nat \<Rightarrow> (nat, string) invoked" where
  "late_first x =
     (if x = 1 then Returns (NotAvailable (Value x)) else Returns (Available (Value x)))"

definition append_digit :: "nat \<Rightarrow> nat \<Rightarrow> string + nat" where
  "append_digit a v = Inr (10 * a + v)"

definition identity_mapper :: "nat \<Rightarrow> (nat, string) invoked" where
  "identity_mapper x = Returns (Available (Value x))"

definition addition :: "nat \<Rightarrow> nat \<Rightarrow> string + nat" where
  "addition a v = Inr (a + v)"

definition both_fail :: "nat \<Rightarrow> (nat, string) invoked" where
  "both_fail x =
     (if x = 1 then Throws ''first'' else Returns (Available (Exception ''second'')))"

definition first_fails :: "nat \<Rightarrow> (nat, string) invoked" where
  "first_fails x = (if x = 1 then Throws ''first'' else Returns (Available (Value x)))"

definition digit_appender :: "nat \<Rightarrow> nat \<Rightarrow> (unit, string) invoked \<times> nat" where
  "digit_appender result value = (Returns (Available (Value ())), 10 * result + value)"

section \<open>Properties of with_timeout\<close>

lemma with_timeout_run_fired:
  "with_timeout_run tex \<lparr>result_pr = Resolved (Exception tex), deadline_timer = Fired, src = sr\<rparr> evs =
     \<lparr>result_pr = Resolved (Exception tex), deadline_timer = Fired,
      src = (case sr of Attached out \<Rightarrow> (if Resolution \<in> set evs then Ignored else sr) | _ \<Rightarrow> sr)\<rparr>"
  unfolding with_timeout_run_def
proof (induction evs arbitrary: sr)
  case Nil
  show ?case by (simp split: source.splits)
next
  case (Cons ev evs)
  show ?case
    by (cases ev; cases sr) (simp_all add: Cons.IH timer_callback_def timeout_continuation_def)
qed

lemma with_timeout_run_cancelled:
  "with_timeout_run tex \<lparr>result_pr = res, deadline_timer = Cancelled, src = Forwarded\<rparr> evs =
     \<lparr>result_pr = res, deadline_timer = Cancelled, src = Forwarded\<rparr>"
  unfolding with_timeout_run_def
proof (induction evs)
  case Nil
  show ?case by simp
next
  case (Cons ev evs)
  show ?case
    by (cases ev) (simp_all add: Cons.IH timer_callback_def timeout_continuation_def)
qed

text \<open>
  C7. For a future \<open>f\<close> that is pending when \<^verbatim>\<open>with_timeout\<close> is called: when the
  timer fires before the continuation of \<open>f\<close> runs, the result is the factory's timeout
  exception, whatever happens afterwards; the promise is never set twice (it is
  \<open>Resolved\<close>, not \<open>Broken\<close>), and when \<open>f\<close> resolves later its outcome is ignored and
  does not reach the result. When the continuation runs first, it cancels the timer and
  the result is the outcome of \<open>f\<close>, whatever happens afterwards. So whichever of the two
  comes first decides the result alone.
\<close>

theorem with_timeout_race:
  "\<exists>st. with_timeout tex d (NotAvailable out) = Racing st \<and>
     with_timeout_run tex st (Deadline # evs) =
       \<lparr>result_pr = Resolved (Exception tex), deadline_timer = Fired,
        src = (if Resolution \<in> set evs then Ignored else Attached out)\<rparr> \<and>
     with_timeout_run tex st (Resolution # evs) =
       \<lparr>result_pr = Resolved out, deadline_timer = Cancelled, src = Forwarded\<rparr>"
proof -
  let ?st = "\<lparr>result_pr = Unset, deadline_timer = Armed d, src = Attached out\<rparr>
               :: ('a, 'b, 'c) with_timeout_state"
  have a: "with_timeout tex d (NotAvailable out) = Racing ?st"
    by (simp add: with_timeout_def)
  have b: "with_timeout_run tex ?st (Deadline # evs) =
       with_timeout_run tex \<lparr>result_pr = Resolved (Exception tex), deadline_timer = Fired, src = Attached out\<rparr> evs"
    by (simp add: with_timeout_run_def timer_callback_def set_exception_def)
  have c: "with_timeout_run tex ?st (Resolution # evs) =
       with_timeout_run tex \<lparr>result_pr = Resolved out, deadline_timer = Cancelled, src = Forwarded\<rparr> evs"
    by (simp add: with_timeout_run_def timeout_continuation_def forward_to_def)
  show ?thesis
    using a b c by (simp add: with_timeout_run_fired with_timeout_run_cancelled)
qed

text \<open>
  C8. A future that is already resolved, with a value or with an exception, is returned
  as it is, and no timer is armed.
\<close>

theorem with_timeout_ready:
  "with_timeout tex d (Available out) = Passed (Available out) \<and>
   \<not> arms_timer (with_timeout tex d (Available out))"
  by (simp add: with_timeout_def)

section \<open>Properties of the sequential combinators\<close>

text \<open>
  After a step that completes synchronously with "continue", \<^verbatim>\<open>repeat\<close>,
  \<^verbatim>\<open>repeat_until_value\<close> and \<^verbatim>\<open>keep_doing\<close> schedule a task and return when the
  preemption check says so; no call of \<^verbatim>\<open>do_until\<close> ever does.
\<close>

lemma repeat_yields:
  "action s = (c, s') \<Longrightarrow> futurize_apply c = Available (Value no) \<Longrightarrow> need_preempt s' \<Longrightarrow>
   repeat need_preempt action s = Some (Preempted s')"
  by (subst repeat.simps) simp

lemma repeat_until_value_yields:
  "action s = (c, s') \<Longrightarrow> futurize_apply c = Available (Value None) \<Longrightarrow> need_preempt s' \<Longrightarrow>
   repeat_until_value need_preempt action s = Some (Preempted s')"
  by (subst repeat_until_value.simps) simp

lemma keep_doing_yields:
  "action s = (Returns (Available (Value ())), s') \<Longrightarrow> need_preempt s' \<Longrightarrow>
   keep_doing need_preempt action s = Some (Preempted s')"
  by (simp add: keep_doing_def keep_doing_lambda_def repeat_yields)

lemma do_until_never_yields:
  "do_until_continued stop_cond action s = Some r \<Longrightarrow> r \<noteq> Preempted s'"
proof (induction rule: do_until_continued.raw_induct[rotated 1, consumes 1])
  case (1 do_until_continued' stop_cond action s r)
  then show ?case
    by (auto split: if_splits prod.splits invoked.splits)
qed

text \<open>
  \<^verbatim>\<open>do_for_each\<close> stops at an element whose future is ready and failed, and at one
  on which the action throws; the action has been called on that element and on none
  after it.
\<close>

lemma do_for_each_stops:
  "action x s = (Returns (Available (Exception e)), s') \<Longrightarrow>
   do_for_each (x # rest) (traced action) (calls, s)
     = Returned (Available (Exception e)) (calls @ [x], s')"
  by (cases rest) (simp_all add: do_for_each_def traced_def)

lemma do_for_each_escapes:
  "action x s = (Throws e, s') \<Longrightarrow>
   do_for_each (x # rest) (traced action) (calls, s) = Escaped e (calls @ [x], s')"
  by (simp add: do_for_each_def traced_def)

text \<open>
  C10. Over an empty range \<^verbatim>\<open>do_for_each\<close> returns a ready future with a value and
  leaves the action's state as it was; the record of a traced action stays empty, so
  the action is not invoked.
\<close>

theorem do_for_each_empty:
  "do_for_each [] action s = Returned (Available (Value ())) s \<and>
   do_for_each [] (traced action) ([], s) = Returned (Available (Value ())) ([], s)"
  by (simp add: do_for_each_def)

text \<open>
  C6. An action that throws synchronously on the first element: the exception leaves
  \<^verbatim>\<open>do_for_each\<close> as a thrown exception, and no future is returned that could
  carry it.
\<close>

theorem do_for_each_throw_escapes:
  "do_for_each [1::nat] (traced (\<lambda>x s. (Throws ''boom'', s))) ([], ())
     = Escaped ''boom'' ([1], ())"
  by (simp add: do_for_each_def traced_def)

text \<open>
  C5. With an action whose futures are always ready and a preemption check that always
  reports "must yield", \<^verbatim>\<open>repeat\<close> schedules a task after the first step, while
  \<^verbatim>\<open>do_until\<close>, which never calls the check, runs all its steps in one synchronous
  call.
\<close>

theorem do_until_never_preempts:
  "repeat (\<lambda>n. True) (\<lambda>n::nat. (Returns (Available (Value no)), Suc n)) 0
     = Some (Preempted 1) \<and>
   do_until (\<lambda>n. 50 \<le> n) (\<lambda>n::nat. (Returns (Available (Value ())), Suc n)) 0
     = Some (Finished (Value ()) 50)"
  by (simp add: do_until_def do_until_continued.simps repeat.simps)

lemma repeat_future_unfold:
  "repeat_future np action s =
     (case action s of (r, s') \<Rightarrow>
        (case eventual (futurize_apply r) of
           Exception e \<Rightarrow> Some (Exception e, s')
         | Value yes \<Rightarrow> Some (Value (), s')
         | Value no \<Rightarrow> repeat_future np action s'))"
proof (cases "action s")
  case (Pair r s')
  show ?thesis
  proof (cases "futurize_apply r")
    case (NotAvailable out)
    then show ?thesis using Pair
      by (subst repeat_future.simps, subst repeat.simps)
         (simp split: outcome.splits stop_iteration.splits)
  next
    case (Available out)
    show ?thesis
    proof (cases out)
      case (Exception e)
      then show ?thesis using Pair Available
        by (subst repeat_future.simps, subst repeat.simps) simp
    next
      case (Value st)
      show ?thesis
      proof (cases st)
        case yes
        then show ?thesis using Pair Available Value
          by (subst repeat_future.simps, subst repeat.simps) simp
      next
        case no
        show ?thesis
        proof (cases "np s'")
          case True
          then show ?thesis using Pair Available Value no
            by (subst repeat_future.simps, subst repeat.simps) simp
        next
          case False
          have "repeat np action s = repeat np action s'"
            using Pair Available Value no False by (subst repeat.simps) simp
          then have "repeat_future np action s = repeat_future np action s'"
            by (simp add: repeat_future.simps[of np action s] repeat_future.simps[of np action s'])
          then show ?thesis using Pair Available Value no by simp
        qed
      qed
    qed
  qed
qed

lemma keep_doing_future_unfold:
  "keep_doing_future np action s =
     (case action s of (r, s') \<Rightarrow>
        (case failure r of
           Some e \<Rightarrow> Some (Exception e, s')
         | None \<Rightarrow> keep_doing_future np action s'))"
proof (cases "action s")
  case (Pair r s')
  show ?thesis
  proof (cases r)
    case (Throws e)
    then show ?thesis using Pair
      unfolding keep_doing_future_def
      by (subst repeat_future_unfold) (simp add: keep_doing_lambda_def)
  next
    case (Returns f)
    then show ?thesis using Pair
      unfolding keep_doing_future_def
      by (subst repeat_future_unfold, cases f; cases "eventual f")
         (simp_all add: keep_doing_lambda_def)
  qed
qed


lemma until_failure_keep_doing:
  "until_failure action s = Some y \<Longrightarrow> keep_doing_future np action s = Some y"
proof (induction rule: until_failure.raw_induct[rotated 1, consumes 1])
  case (1 until_failure' action s y)
  show ?case
    using "1.hyps" "1.IH"
    by (subst keep_doing_future_unfold) (auto split: prod.splits option.splits)
qed

lemma repeat_keep_doing:
  "repeat np act s = Some r \<Longrightarrow> act = keep_doing_lambda action \<Longrightarrow>
     (case r of
        Finished out s' \<Rightarrow> (\<exists>e. out = Exception e) \<and> until_failure action s = Some (out, s')
      | Suspended (Exception e) s' \<Rightarrow> until_failure action s = Some (Exception e, s')
      | Suspended (Value yes) s' \<Rightarrow> False
      | Suspended (Value no) s' \<Rightarrow> until_failure action s = until_failure action s'
      | Preempted s' \<Rightarrow> until_failure action s = until_failure action s')"
proof (induction arbitrary: action rule: repeat.raw_induct[rotated 1, consumes 1])
  case (1 repeat' np act s r)
  obtain c s' where c: "action s = (c, s')" by (cases "action s")
  have uf: "until_failure action s =
      (case failure c of Some e \<Rightarrow> Some (Exception e, s') | None \<Rightarrow> until_failure action s')"
    using c by (subst until_failure.simps) simp
  show ?case
  proof (cases c)
    case (Throws e)
    then show ?thesis using "1.hyps" "1.prems" c uf
      by (auto simp: keep_doing_lambda_def)
  next
    case (Returns f)
    show ?thesis
    proof (cases f)
      case (NotAvailable out)
      then show ?thesis using "1.hyps" "1.prems" c Returns uf
        by (cases out) (auto simp: keep_doing_lambda_def)
    next
      case (Available out)
      show ?thesis
      proof (cases out)
        case (Exception e)
        then show ?thesis using "1.hyps" "1.prems" c Returns Available uf
          by (auto simp: keep_doing_lambda_def)
      next
        case (Value u)
        show ?thesis
        proof (cases "np s'")
          case True
          then show ?thesis using "1.hyps" "1.prems" c Returns Available Value uf
            by (auto simp: keep_doing_lambda_def)
        next
          case False
          then have "repeat' np act s' = Some r"
            using "1.hyps" "1.prems" c Returns Available Value
            by (auto simp: keep_doing_lambda_def)
          from "1.IH"[OF this "1.prems"]
          show ?thesis using c Returns Available Value uf
            by (auto split: looping.splits outcome.splits stop_iteration.splits)
        qed
      qed
    qed
  qed
qed

lemma keep_doing_until_failure:
  "repeat_future np act s = Some y \<Longrightarrow> act = keep_doing_lambda action \<Longrightarrow>
     until_failure action s = Some y"
proof (induction arbitrary: action rule: repeat_future.raw_induct[rotated 1, consumes 1])
  case (1 repeat_future' np act s y)
  obtain r where r: "repeat np act s = Some r"
    using "1.hyps" by (cases "repeat np act s") auto
  from repeat_keep_doing[OF r "1.prems"] "1.hyps" "1.IH" "1.prems" r
  show ?case
    by (auto split: looping.splits outcome.splits stop_iteration.splits)
qed

text \<open>
  C9. \<^verbatim>\<open>keep_doing\<close> is \<^verbatim>\<open>repeat\<close> of the action that maps every successful
  completion to "continue"; the future it returns resolves exactly as "run the action
  until a call fails, then fail with that exception" does (both never resolve when no
  call fails), and it never resolves with a value.
\<close>

theorem keep_doing_refines:
  "keep_doing need_preempt action = repeat need_preempt (keep_doing_lambda action) \<and>
   keep_doing_future need_preempt action s = until_failure action s \<and>
   keep_doing_future need_preempt action s \<noteq> Some (Value (), s')"
proof -
  have eq: "keep_doing_future need_preempt action s = until_failure action s"
  proof (cases "until_failure action s")
    case (Some y)
    then show ?thesis by (simp add: until_failure_keep_doing)
  next
    case None
    show ?thesis
    proof (cases "keep_doing_future need_preempt action s")
      case None
      then show ?thesis using \<open>until_failure action s = None\<close> by simp
    next
      case (Some y)
      then have "until_failure action s = Some y"
        unfolding keep_doing_future_def by (rule keep_doing_until_failure) simp
      then show ?thesis using None by simp
    qed
  qed
  have never: "until_failure action s = Some y \<Longrightarrow> \<exists>e s'. y = (Exception e, s')" for y
  proof (induction rule: until_failure.raw_induct[rotated 1, consumes 1])
    case (1 until_failure' action s y)
    then show ?case by (auto split: prod.splits option.splits)
  qed
  have "keep_doing_future need_preempt action s \<noteq> Some (Value (), s')"
    using never[of "(Value (), s')"] eq by auto
  then show ?thesis using eq by (auto simp: keep_doing_def fun_eq_iff)
qed


section \<open>Properties of parallel_for_each\<close>

lemma complete_many:
  "waiting st = Suc (Suc n) \<Longrightarrow> complete st = st\<lparr>waiting := Suc n\<rparr>"
  by (simp add: complete_def decrement_def Let_def)

lemma complete_last:
  "waiting st = Suc 0 \<Longrightarrow>
   complete st = st\<lparr>waiting := 0,
      pr := resolve (pr st) (case ex st of None \<Rightarrow> Value () | Some e \<Rightarrow> Exception e)\<rparr>"
  by (simp add: complete_def decrement_def Let_def set_value_def set_exception_def
      split: option.splits)

lemma noted_lambda:
  "noted st F \<Longrightarrow> waiting st = Suc (Suc n) \<Longrightarrow>
   noted (parallel_for_each_lambda st out) (F \<union> (case out of Exception e \<Rightarrow> {e} | Value u \<Rightarrow> {})) \<and>
   waiting (parallel_for_each_lambda st out) = Suc n \<and>
   pr (parallel_for_each_lambda st out) = pr st"
  by (cases out) (auto simp: parallel_for_each_lambda_def complete_many noted_def)

lemma noted_catch:
  "noted st F \<Longrightarrow> waiting st = Suc (Suc n) \<Longrightarrow>
   noted (parallel_for_each_catch st e) (insert e F) \<and>
   waiting (parallel_for_each_catch st e) = Suc n \<and>
   pr (parallel_for_each_catch st e) = pr st"
  by (auto simp: parallel_for_each_catch_def complete_many noted_def)

lemma inline_failures_simps:
  "inline_failures [] = {}"
  "inline_failures (Throws e # cs) = insert e (inline_failures cs)"
  "inline_failures (Returns (Available (Exception e)) # cs) = insert e (inline_failures cs)"
  "inline_failures (Returns (Available (Value v)) # cs) = inline_failures cs"
  "inline_failures (Returns (NotAvailable out) # cs) = inline_failures cs"
  by (auto simp: inline_failures_def)

lemma loop_inv:
  "noted st F \<Longrightarrow> waiting st = Suc n \<Longrightarrow>
   parallel_for_each_loop xs func (st, att) = (st', att') \<Longrightarrow>
   noted st' (F \<union> inline_failures (map func xs)) \<and>
   waiting st' = Suc n + length (pending (map func xs)) \<and>
   pr st' = pr st \<and> att' = att @ pending (map func xs)"
proof (induction xs arbitrary: st F n att)
  case Nil
  then show ?case by (simp add: inline_failures_simps)
next
  case (Cons x xs)
  let ?st1 = "st\<lparr>waiting := waiting st + 1\<rparr>"
  have n1: "noted ?st1 F" "waiting ?st1 = Suc (Suc n)"
    using Cons.prems by (simp_all add: noted_def)
  show ?case
  proof (cases "func x")
    case (Throws e)
    from noted_catch[OF n1, of e] Cons.prems(3) Throws
    show ?thesis
      using Cons.IH[of "parallel_for_each_catch ?st1 e" "insert e F" n att]
      by (simp add: inline_failures_simps Let_def)
  next
    case (Returns f)
    show ?thesis
    proof (cases f)
      case (Available out)
      from noted_lambda[OF n1, of out] Cons.prems(3) Returns Available
      show ?thesis
        using Cons.IH[of "parallel_for_each_lambda ?st1 out" "F \<union> (case out of Exception e \<Rightarrow> {e} | Value u \<Rightarrow> {})" n att]
        by (cases out) (simp_all add: inline_failures_simps Let_def)
    next
      case (NotAvailable out)
      from n1 Cons.prems(3) Returns NotAvailable
      show ?thesis
        using Cons.IH[of ?st1 F "Suc n" "att @ [out]"]
        by (simp add: inline_failures_simps Let_def)
    qed
  qed
qed

lemma fold_inv:
  "noted st F \<Longrightarrow> waiting st = length order \<Longrightarrow> order \<noteq> [] \<Longrightarrow> pr st = Unset \<Longrightarrow>
   \<exists>out. pr (foldl parallel_for_each_lambda st order) = Resolved out \<and>
     (out = Value () \<longleftrightarrow> F \<union> late_failures order = {}) \<and>
     (\<forall>e. out = Exception e \<longrightarrow> e \<in> F \<union> late_failures order)"
proof (induction order arbitrary: st F)
  case Nil
  then show ?case by simp
next
  case (Cons out order)
  show ?case
  proof (cases order)
    case Nil
    have w: "waiting st = Suc 0" using Cons.prems Nil by simp
    show ?thesis using Cons.prems Nil w
      by (cases out; cases "ex st")
         (auto simp: parallel_for_each_lambda_def complete_last noted_def late_failures_def)
  next
    case (Cons out' order')
    then have w: "waiting st = Suc (Suc (length order'))" using Cons.prems by simp
    from noted_lambda[OF Cons.prems(1) w, of out]
    have "\<exists>out'. pr (foldl parallel_for_each_lambda (parallel_for_each_lambda st out) order) = Resolved out' \<and>
     (out' = Value () \<longleftrightarrow> (F \<union> (case out of Exception e \<Rightarrow> {e} | Value u \<Rightarrow> {})) \<union> late_failures order = {}) \<and>
     (\<forall>e. out' = Exception e \<longrightarrow> e \<in> (F \<union> (case out of Exception e \<Rightarrow> {e} | Value u \<Rightarrow> {})) \<union> late_failures order)"
      using Cons.prems Cons by (intro Cons.IH) auto
    then show ?thesis
      by (cases out) (auto simp: late_failures_def)
  qed
qed

lemma failures_set:
  "set (failures cs) = inline_failures cs \<union> late_failures (pending cs)"
proof (induction cs rule: pending.induct)
  case 1
  then show ?case by (simp add: failures_def inline_failures_def late_failures_def)
next
  case (2 e cs)
  then show ?case by (auto simp add: failures_def inline_failures_def late_failures_def)
next
  case (3 f cs)
  then show ?case by (cases f) (auto simp add: failures_def inline_failures_def late_failures_def)
next
  case (4 f cs)
  then show ?case by (cases f) (auto simp add: failures_def inline_failures_def late_failures_def)
qed

lemma parallel_for_each_resolved:
  assumes "mset order = mset (pending (map func xs))"
  shows "\<exists>out. parallel_for_each_future (parallel_for_each xs func) order = Resolved out \<and>
     (out = Value () \<longleftrightarrow> failures (map func xs) = []) \<and>
     (\<forall>e. out = Exception e \<longrightarrow> e \<in> set (failures (map func xs)))"
proof (cases "xs = []")
  case True
  then show ?thesis by (simp add: parallel_for_each_def failures_def)
next
  case False
  let ?st0 = "\<lparr>ex = None, waiting = Suc 0, pr = Unset\<rparr>"
  obtain st' att' where l: "parallel_for_each_loop xs func (?st0, []) = (st', att')"
    by (cases "parallel_for_each_loop xs func (?st0, [])")
  have n0: "noted ?st0 {}" by (simp add: noted_def)
  from loop_inv[OF n0 _ l, of 0]
  have inv: "noted st' (inline_failures (map func xs))"
    "waiting st' = Suc (length (pending (map func xs)))"
    "pr st' = Unset" "att' = pending (map func xs)"
    by simp_all
  have len: "length order = length (pending (map func xs))"
    using assms by (metis size_mset)
  have late: "late_failures order = late_failures (pending (map func xs))"
    using assms by (metis late_failures_def mset_eq_setD)
  have res: "parallel_for_each_future (parallel_for_each xs func) order
      = pr (foldl parallel_for_each_lambda (complete st') order)"
    using False l by (simp add: parallel_for_each_def)
  have fs: "failures (map func xs) = [] \<longleftrightarrow> inline_failures (map func xs) \<union> late_failures order = {}"
    using failures_set[of "map func xs"] late by (metis set_empty)
  show ?thesis
  proof (cases order)
    case Nil
    then have w: "waiting st' = Suc 0" using inv len by simp
    have "late_failures order = {}" using Nil by (simp add: late_failures_def)
    then show ?thesis using res Nil inv fs w failures_set[of "map func xs"] late
      by (cases "ex st'") (auto simp: complete_last noted_def)
  next
    case (Cons out order')
    then have w: "waiting st' = Suc (Suc (length order'))" using inv len by simp
    have c: "complete st' = st'\<lparr>waiting := Suc (length order')\<rparr>"
      using w by (rule complete_many)
    have n: "noted (complete st') (inline_failures (map func xs))"
      using inv(1) c by (simp add: noted_def)
    from fold_inv[OF n, of order] c Cons inv
    show ?thesis using res fs failures_set[of "map func xs"] late by auto
  qed
qed


lemma fold_unresolved:
  "length order < waiting st \<Longrightarrow>
   pr (foldl parallel_for_each_lambda st order) = pr st \<and>
   waiting (foldl parallel_for_each_lambda st order) = waiting st - length order"
proof (induction order arbitrary: st)
  case Nil
  show ?case by simp
next
  case (Cons out order)
  then obtain n where w: "waiting st = Suc (Suc n)"
    by (metis length_Cons less_imp_Suc_add Suc_less_eq2)
  have l: "waiting (parallel_for_each_lambda st out) = Suc n \<and>
      pr (parallel_for_each_lambda st out) = pr st"
    using w by (cases out) (auto simp: parallel_for_each_lambda_def complete_many)
  then have "length order < waiting (parallel_for_each_lambda st out)"
    using Cons.prems w by simp
  from Cons.IH[OF this] l w show ?case by simp
qed

lemma parallel_for_each_pending:
  assumes "length order < length (pending (map func xs))"
  shows "parallel_for_each_future (parallel_for_each xs func) order = Unset"
proof -
  have ne: "xs \<noteq> []" using assms by auto
  obtain st' att' where l: "parallel_for_each_loop xs func (\<lparr>ex = None, waiting = Suc 0, pr = Unset\<rparr>, []) = (st', att')"
    by (cases "parallel_for_each_loop xs func (\<lparr>ex = None, waiting = Suc 0, pr = Unset\<rparr>, [])")
  have n0: "noted \<lparr>ex = None, waiting = Suc 0, pr = Unset\<rparr> {}" by (simp add: noted_def)
  from loop_inv[OF n0 _ l, of 0]
  have inv: "waiting st' = Suc (length (pending (map func xs)))" "pr st' = Unset"
    by simp_all
  obtain n where n: "length (pending (map func xs)) = Suc n"
    using assms by (cases "length (pending (map func xs))") simp_all
  have c: "complete st' = st'\<lparr>waiting := Suc n\<rparr>"
    using inv n by (simp add: complete_many)
  have "pr (foldl parallel_for_each_lambda (complete st') order) = pr (complete st')"
    using fold_unresolved[of order "complete st'"] c assms n by simp
  then show ?thesis using ne l c inv by (simp add: parallel_for_each_def)
qed

text \<open>
  C1. Whatever the order in which the pending futures resolve (any arrangement \<open>order\<close>
  of their outcomes), once all of them have resolved the future returned by
  \<^verbatim>\<open>parallel_for_each\<close> is resolved, exactly once; it holds a value if and only if no
  invocation of \<^verbatim>\<open>func\<close> failed (by a throw or by a failed future), and otherwise it
  holds the exception of one of the invocations that failed. While fewer futures have
  resolved than were pending, the returned future is not resolved.
\<close>

theorem parallel_for_each_outcome:
  "(mset order = mset (pending (map func xs)) \<longrightarrow>
      (\<exists>out. parallel_for_each_future (parallel_for_each xs func) order = Resolved out \<and>
         (out = Value () \<longleftrightarrow> failures (map func xs) = []) \<and>
         (\<forall>e. out = Exception e \<longrightarrow> e \<in> set (failures (map func xs))))) \<and>
   (length order < length (pending (map func xs)) \<longrightarrow>
      parallel_for_each_future (parallel_for_each xs func) order = Unset)"
  using parallel_for_each_resolved[of order func xs] parallel_for_each_pending[of order func xs]
  by blast

theorem parallel_for_each_outcome_witness:
  "mset [Value (), Exception ''late''] = mset (pending (map late_or_thrown [1, 2, 3])) \<and>
   parallel_for_each_future (parallel_for_each [1, 2, 3] late_or_thrown)
     [Value (), Exception ''late''] = Resolved (Exception ''thrown'') \<and>
   length [Value () :: (unit, string) outcome] < length (pending (map late_or_thrown [1, 2, 3])) \<and>
   parallel_for_each_future (parallel_for_each [1, 2, 3] late_or_thrown) [Value ()] = Unset"
proof -
  have h: "mset [Value (), Exception ''late''] = mset (pending (map late_or_thrown [1, 2, 3]))"
    by (simp add: late_or_thrown_def)
  have g: "length [Value () :: (unit, string) outcome]
      < length (pending (map late_or_thrown [1, 2, 3]))"
    by (simp add: late_or_thrown_def)
  have f: "set (failures (map late_or_thrown [1, 2, 3])) = {''late'', ''thrown''}"
    by (auto simp: late_or_thrown_def failures_def)
  have v: "parallel_for_each_future (parallel_for_each [1, 2, 3] late_or_thrown)
     [Value (), Exception ''late''] = Resolved (Exception ''thrown'')"
    by (simp add: parallel_for_each_def late_or_thrown_def parallel_for_each_catch_def
        parallel_for_each_lambda_def complete_def decrement_def set_exception_def)
  show ?thesis
    using h g v
      parallel_for_each_outcome [of "[Value ()]" late_or_thrown "[1, 2, 3]"]
      parallel_for_each_outcome [of "[Value (), Exception ''late'']" late_or_thrown "[1, 2, 3]"]
    by blast
qed

section \<open>Properties of when_all\<close>

lemma length_arrive [simp]: "length (arrive fs i) = length fs"
  by (simp add: arrive_def split: future.splits)

lemma eventual_arrive [simp]: "map eventual (arrive fs i) = map eventual fs"
  by (auto simp: arrive_def map_update list_update_same_conv split: future.splits)

lemma available_arrive: "j < length fs \<Longrightarrow> available (fs ! j) \<Longrightarrow> available (arrive fs i ! j)"
  by (auto simp: arrive_def nth_list_update split: future.splits)

lemma arrived: "i < length fs \<Longrightarrow> available (arrive fs i ! i)"
  by (auto simp: arrive_def split: future.splits)

lemma length_arrivals [simp]: "length (foldl arrive fs order) = length fs"
  by (induction order arbitrary: fs) simp_all

lemma eventual_arrivals [simp]: "map eventual (foldl arrive fs order) = map eventual fs"
  by (induction order arbitrary: fs) simp_all

lemma available_arrivals:
  "j < length fs \<Longrightarrow> available (fs ! j) \<Longrightarrow> available (foldl arrive fs order ! j)"
  by (induction order arbitrary: fs) (simp_all add: available_arrive)

lemma arrivals_cover:
  "i \<in> set order \<Longrightarrow> i < length fs \<Longrightarrow> available (foldl arrive fs order ! i)"
proof (induction order arbitrary: fs)
  case Nil
  then show ?case by simp
next
  case (Cons j order)
  show ?case
  proof (cases "i = j")
    case True
    then show ?thesis using Cons.prems by (simp add: available_arrivals arrived)
  next
    case False
    then show ?thesis using Cons by simp
  qed
qed

lemma all_available_completed:
  "\<forall>i<length fs. available (fs ! i) \<Longrightarrow> map eventual fs = map eventual futs \<Longrightarrow>
   fs = completed futs"
proof -
  assume a: "\<forall>i<length fs. available (fs ! i)" and e: "map eventual fs = map eventual futs"
  have len: "length fs = length futs" using e by (metis length_map)
  show ?thesis
  proof (rule nth_equalityI)
    show "length fs = length (completed futs)" using len by (simp add: completed_def)
  next
    fix i assume i: "i < length fs"
    then have "eventual (fs ! i) = eventual (futs ! i)"
      using e len by (metis nth_map)
    moreover have "available (fs ! i)" using a i by simp
    ultimately show "fs ! i = completed futs ! i"
      using i len by (cases "fs ! i") (simp_all add: completed_def)
  qed
qed

lemma arrivals_completed:
  "unavailable futs \<subseteq> set order \<Longrightarrow> foldl arrive futs order = completed futs"
proof (rule all_available_completed)
  assume u: "unavailable futs \<subseteq> set order"
  show "\<forall>i<length (foldl arrive futs order). available (foldl arrive futs order ! i)"
  proof (intro allI impI)
    fix i assume "i < length (foldl arrive futs order)"
    then have i: "i < length futs" by simp
    show "available (foldl arrive futs order ! i)"
    proof (cases "available (futs ! i)")
      case True
      then show ?thesis using i by (rule available_arrivals[rotated])
    next
      case False
      then have "i \<in> set order" using u i by (auto simp: unavailable_def)
      then show ?thesis using i by (rule arrivals_cover)
    qed
  qed
next
  show "map eventual (foldl arrive futs order) = map eventual futs" by simp
qed

lemma outstanding_zero: "outstanding fs = 0 \<longleftrightarrow> (\<forall>i<length fs. available (fs ! i))"
  by (auto simp: outstanding_def filter_empty_conv all_set_conv_all_nth)

lemma outstanding_update:
  "i < length fs \<Longrightarrow> fs ! i = NotAvailable out \<Longrightarrow>
   outstanding fs = Suc (outstanding (fs[i := Available out]))"
proof -
  assume i: "i < length fs" and n: "fs ! i = NotAvailable out"
  have a: "fs = take i fs @ NotAvailable out # drop (Suc i) fs"
    using i n by (metis id_take_nth_drop)
  have b: "fs[i := Available out] = take i fs @ Available out # drop (Suc i) fs"
    using i by (rule upd_conv_take_nth_drop)
  have "outstanding (take i fs @ NotAvailable out # drop (Suc i) fs)
      = Suc (outstanding (take i fs @ Available out # drop (Suc i) fs))"
    by (simp add: outstanding_def)
  then show ?thesis using a b by simp
qed

lemma wait_count:
  "idx < length (tuple s) \<Longrightarrow>
   wait idx s = s\<lparr>use_count := use_count s + outstanding [tuple s ! idx]\<rparr>"
  by (cases "tuple s ! idx") (simp_all add: wait_def outstanding_def list_update_same_conv)

lemma wait_upto:
  "k \<le> length (tuple s) \<Longrightarrow>
   foldl (\<lambda>s idx. wait idx s) s [0..<k] = s\<lparr>use_count := use_count s + outstanding (take k (tuple s))\<rparr>"
proof (induction k)
  case 0
  then show ?case by (simp add: outstanding_def)
next
  case (Suc k)
  then show ?case
    by (simp add: wait_count take_Suc_conv_app_nth outstanding_def)
qed

lemma wait_all_count:
  "wait_all s = s\<lparr>use_count := use_count s + outstanding (tuple s)\<rparr>"
  by (simp add: wait_all_def wait_upto)

lemma settled_when_all: "settled (when_all futs) \<and> tuple (when_all futs) = futs"
  by (simp add: when_all_def wait_all_count release_def destructor_def set_value_def settled_def Let_def)

lemma settled_resolved:
  "settled s \<Longrightarrow> settled (when_all_resolved s idx) \<and> tuple (when_all_resolved s idx) = arrive (tuple s) idx"
proof (cases "idx < length (tuple s)")
  case False
  assume "settled s"
  then show ?thesis using False by (simp add: when_all_resolved_def arrive_def)
next
  case True
  assume st: "settled s"
  show ?thesis
  proof (cases "tuple s ! idx")
    case (Available out)
    then show ?thesis using True st by (simp add: when_all_resolved_def arrive_def)
  next
    case (NotAvailable out)
    from outstanding_update[OF True NotAvailable]
    show ?thesis using True st NotAvailable
      by (simp add: when_all_resolved_def arrive_def release_def destructor_def set_value_def
          settled_def Let_def)
  qed
qed

lemma settled_run:
  "settled s \<Longrightarrow> settled (foldl when_all_resolved s order) \<and>
     tuple (foldl when_all_resolved s order) = foldl arrive (tuple s) order"
proof (induction order arbitrary: s)
  case Nil
  then show ?case by simp
next
  case (Cons i order)
  from settled_resolved[OF Cons.prems, of i] Cons.IH[of "when_all_resolved s i"]
  show ?case by simp
qed

lemma skip_available_props:
  "k \<le> length fs \<Longrightarrow>
   k \<le> skip_available fs k \<and> skip_available fs k \<le> length fs \<and>
   (\<forall>j. k \<le> j \<and> j < skip_available fs k \<longrightarrow> available (fs ! j)) \<and>
   (skip_available fs k < length fs \<longrightarrow> \<not> available (fs ! skip_available fs k))"
proof (induction fs k rule: skip_available.induct)
  case (1 futures pos)
  show ?case
  proof (cases "pos < length futures \<and> available (futures ! pos)")
    case True
    then have eq: "skip_available futures pos = skip_available futures (Suc pos)"
      by (subst skip_available.simps) simp
    have "Suc pos \<le> length futures" using True by simp
    from "1.IH"[OF True this] True show ?thesis
      unfolding eq by (metis Suc_leD le_antisym not_less_eq_eq)
  next
    case False
    then have eq: "skip_available futures pos = pos"
      by (subst skip_available.simps) auto
    show ?thesis using False "1.prems" unfolding eq by auto
  qed
qed

lemma skip_available_unique:
  "k \<le> pos \<Longrightarrow> pos \<le> length fs \<Longrightarrow> (\<forall>j. k \<le> j \<and> j < pos \<longrightarrow> available (fs ! j)) \<Longrightarrow>
   (pos < length fs \<longrightarrow> \<not> available (fs ! pos)) \<Longrightarrow> skip_available fs k = pos"
proof (induction fs k rule: skip_available.induct)
  case (1 futures k)
  show ?case
  proof (cases "k = pos")
    case True
    then show ?thesis using "1.prems" by (subst skip_available.simps) auto
  next
    case False
    then have lt: "k < pos" using "1.prems" by simp
    then have c: "k < length futures \<and> available (futures ! k)" using "1.prems" by auto
    have "skip_available futures (Suc k) = pos"
      using "1.prems" lt by (intro "1.IH"[OF c]) auto
    then show ?thesis using c by (subst skip_available.simps) simp
  qed
qed


lemma complete_when_all_arrive:
  "when_all_vector_resolved (complete_when_all fs 0) i = complete_when_all (arrive fs i) 0"
proof -
  let ?pos = "skip_available fs 0"
  from skip_available_props[of 0 fs]
  have le: "?pos \<le> length fs"
    and before: "\<And>j. j < ?pos \<Longrightarrow> available (fs ! j)"
    and at: "?pos < length fs \<Longrightarrow> \<not> available (fs ! ?pos)"
    by simp_all
  show ?thesis
  proof (cases "i < length fs \<and> \<not> available (fs ! i)")
    case False
    then have "arrive fs i = fs"
      by (cases "fs ! i") (auto simp: arrive_def)
    moreover have "when_all_vector_resolved (complete_when_all fs 0) i = complete_when_all fs 0"
      using False by (cases "fs ! i") (auto simp: complete_when_all_def Let_def)
    ultimately show ?thesis by simp
  next
    case True
    then obtain out where out: "fs ! i = NotAvailable out"
      by (cases "fs ! i") auto
    have i: "i < length fs" using True by simp
    have ar: "arrive fs i = fs[i := Available out]"
      using i out by (simp add: arrive_def)
    have pos_i: "?pos \<le> i"
      using before[of i] True by (meson not_le)
    then have lt: "?pos < length fs" using i by simp
    have cw: "complete_when_all fs 0 = Awaiting fs ?pos"
      using lt by (simp add: complete_when_all_def Let_def)
    show ?thesis
    proof (cases "i = ?pos")
      case True
      let ?fs' = "fs[?pos := Available out]"
      let ?pos' = "skip_available ?fs' (Suc ?pos)"
      have "Suc ?pos \<le> length ?fs'" using lt by simp
      note props = skip_available_props[OF this]
      have le': "Suc ?pos \<le> ?pos'" "?pos' \<le> length ?fs'"
        using props by blast+
      have before': "\<And>j. Suc ?pos \<le> j \<Longrightarrow> j < ?pos' \<Longrightarrow> available (?fs' ! j)"
        using props by blast
      have at': "?pos' < length ?fs' \<Longrightarrow> \<not> available (?fs' ! ?pos')"
        using props by blast
      have "skip_available ?fs' 0 = ?pos'"
      proof (rule skip_available_unique)
        show "0 \<le> ?pos'" by simp
        show "?pos' \<le> length ?fs'" by (rule le')
        show "\<forall>j. 0 \<le> j \<and> j < ?pos' \<longrightarrow> available (?fs' ! j)"
        proof (intro allI impI)
          fix j assume j: "0 \<le> j \<and> j < ?pos'"
          consider "j < ?pos" | "j = ?pos" | "Suc ?pos \<le> j" by linarith
          then show "available (?fs' ! j)"
          proof cases
            case 1
            then show ?thesis using before[of j] by simp
          next
            case 2
            then show ?thesis using lt by simp
          next
            case 3
            then show ?thesis using before'[of j] j by blast
          qed
        qed
        show "?pos' < length ?fs' \<longrightarrow> \<not> available (?fs' ! ?pos')"
          using at' by blast
      qed
      then have "complete_when_all ?fs' 0 = complete_when_all ?fs' (Suc ?pos)"
        by (simp add: complete_when_all_def)
      then show ?thesis using True cw ar out i by simp
    next
      case False
      let ?fs' = "fs[i := Available out]"
      have "skip_available ?fs' 0 = ?pos"
      proof (rule skip_available_unique)
        show "0 \<le> ?pos" by simp
        show "?pos \<le> length ?fs'" using le by simp
        show "\<forall>j. 0 \<le> j \<and> j < ?pos \<longrightarrow> available (?fs' ! j)"
          using before pos_i by (simp add: nth_list_update)
        show "?pos < length ?fs' \<longrightarrow> \<not> available (?fs' ! ?pos)"
          using at lt False by (simp add: nth_list_update)
      qed
      then have "complete_when_all ?fs' 0 = Awaiting ?fs' ?pos"
        using lt by (simp add: complete_when_all_def Let_def)
      then show ?thesis using False cw ar out i by simp
    qed
  qed
qed

lemma complete_when_all_arrivals:
  "foldl when_all_vector_resolved (complete_when_all fs 0) order
     = complete_when_all (foldl arrive fs order) 0"
  by (induction order arbitrary: fs) (simp_all add: complete_when_all_arrive)

lemma complete_when_all_completed:
  "complete_when_all (completed futs) 0 = Completed (completed futs)"
proof -
  have "skip_available (completed futs) 0 = length (completed futs)"
    by (rule skip_available_unique) (simp_all add: completed_def)
  then show ?thesis by (simp add: complete_when_all_def)
qed

text \<open>
  C2. In both forms, and for every order \<open>order\<close> in which inputs resolve, the future
  returned by \<^verbatim>\<open>when_all\<close> never holds an exception and is never resolved twice; once
  every input that was pending has resolved, it holds the list of the completed inputs,
  values and exceptions alike, the i-th element being the i-th input.
\<close>

theorem when_all_outcome:
  "(\<forall>e. when_all_future futs order \<noteq> Resolved (Exception e)) \<and>
   when_all_future futs order \<noteq> Broken \<and>
   (\<forall>e. when_all_iterators_future futs order \<noteq> Resolved (Exception e)) \<and>
   when_all_iterators_future futs order \<noteq> Broken \<and>
   (unavailable futs \<subseteq> set order \<longrightarrow>
      when_all_future futs order = Resolved (Value (completed futs)) \<and>
      when_all_iterators_future futs order = Resolved (Value (completed futs)))"
proof -
  let ?s = "foldl when_all_resolved (when_all futs) order"
  from settled_run[of "when_all futs" order] settled_when_all[of futs]
  have st: "settled ?s" and tu: "tuple ?s = foldl arrive futs order"
    by simp_all
  have a: "(\<forall>e. when_all_future futs order \<noteq> Resolved (Exception e)) \<and>
      when_all_future futs order \<noteq> Broken"
    using st by (auto simp: when_all_future_def settled_def split: if_splits)
  let ?v = "foldl when_all_vector_resolved (when_all_iterators futs) order"
  have b: "(\<forall>e. when_all_iterators_future futs order \<noteq> Resolved (Exception e)) \<and>
      when_all_iterators_future futs order \<noteq> Broken"
    by (cases ?v) (simp_all add: when_all_iterators_future_def)
  have c: "when_all_future futs order = Resolved (Value (completed futs)) \<and>
      when_all_iterators_future futs order = Resolved (Value (completed futs))"
    if u: "unavailable futs \<subseteq> set order"
  proof -
    have fin: "foldl arrive futs order = completed futs"
      using u by (rule arrivals_completed)
    have "outstanding (completed futs) = 0"
      by (simp add: outstanding_zero completed_def)
    then have "when_all_future futs order = Resolved (Value (completed futs))"
      using st tu fin by (simp add: when_all_future_def settled_def)
    moreover have "when_all_iterators_future futs order = Resolved (Value (completed futs))"
      using fin
      by (simp add: when_all_iterators_future_def when_all_iterators_def
          complete_when_all_arrivals complete_when_all_completed)
    ultimately show ?thesis by simp
  qed
  show ?thesis using a b c by blast
qed


theorem when_all_outcome_witness:
  "unavailable [Available (Value (1::nat)), NotAvailable (Exception ''x''), NotAvailable (Value 3)]
     \<subseteq> set [2, 1] \<and>
   when_all_future
     [Available (Value (1::nat)), NotAvailable (Exception ''x''), NotAvailable (Value 3)] [2, 1]
     = Resolved (Value [Available (Value 1), Available (Exception ''x''), Available (Value 3)]) \<and>
   when_all_iterators_future
     [Available (Value (1::nat)), NotAvailable (Exception ''x''), NotAvailable (Value 3)] [2, 1]
     = Resolved (Value [Available (Value 1), Available (Exception ''x''), Available (Value 3)])"
proof -
  let ?futs = "[Available (Value (1::nat)), NotAvailable (Exception ''x''), NotAvailable (Value 3)]"
  have h: "unavailable ?futs \<subseteq> set [2, 1]"
    by (auto simp: unavailable_def less_Suc_eq)
  have c: "completed ?futs
      = [Available (Value 1), Available (Exception ''x''), Available (Value 3)]"
    by (simp add: completed_def)
  show ?thesis
    using h c when_all_outcome [of ?futs "[2, 1]"] by simp
qed

section \<open>Properties of map_reduce\<close>

lemma forecast_inner_lambda:
  "forecast r (inner_lambda r st f rf) = next_fold r (st, rf) f"
  by (cases rf; cases f)
     (auto simp: inner_lambda_def next_fold_def split: prod.splits future.splits invoked.splits)

lemma forecast_outer_lambda:
  "forecast r (outer_lambda r st f ret) = next_fold r (forecast r (st, ret)) f"
  by (cases ret) (simp_all add: outer_lambda_def forecast_inner_lambda)

lemma forecast_step:
  "forecast r (reducer_step r (st, ret) ev) = forecast r (st, ret)"
proof (induction ret arbitrary: st)
  case (Settled rf)
  show ?case by simp
next
  case (Reducing out)
  show ?case by (cases ev) simp_all
next
  case (Outer j f ret)
  show ?case
  proof (cases "ev = MapperResolved j")
    case True
    then show ?thesis by (simp add: forecast_outer_lambda)
  next
    case False
    obtain st' ret' where e: "reducer_step r (st, ret) ev = (st', ret')"
      by (cases "reducer_step r (st, ret) ev")
    from Outer.IH[of st] e have "forecast r (st', ret') = forecast r (st, ret)" by simp
    then show ?thesis using False e by simp
  qed
next
  case (Inner f ret)
  obtain st' ret' where e: "reducer_step r (st, ret) ev = (st', ret')"
    by (cases "reducer_step r (st, ret) ev")
  from Inner.IH[of st] e have "forecast r (st', ret') = forecast r (st, ret)" by simp
  then show ?case using e by (simp add: forecast_outer_lambda)
qed

lemma forecast_run:
  "forecast r (foldl (reducer_step r) c events) = forecast r c"
proof (induction events arbitrary: c)
  case Nil
  show ?case by simp
next
  case (Cons ev events)
  obtain st ret where c: "c = (st, ret)" by (cases c)
  show ?case using Cons.IH[of "reducer_step r c ev"] c
    by (simp add: forecast_step)
qed

lemma forecast_loop:
  "forecast r (map_reduce_reducer_loop xs k mapper r (st, ret)) =
     foldl (next_fold r) (forecast r (st, ret)) (map eventual (mapped mapper xs))"
proof (induction xs arbitrary: k st ret)
  case Nil
  show ?case by (simp add: mapped_def)
next
  case (Cons x xs)
  show ?case
  proof (cases "futurize_apply (mapper x)")
    case (Available f)
    obtain st' ret' where o: "outer_lambda r st f ret = (st', ret')"
      by (cases "outer_lambda r st f ret")
    have "forecast r (st', ret') = next_fold r (forecast r (st, ret)) f"
      using forecast_outer_lambda[of r st f ret] o by simp
    then show ?thesis using Available o Cons.IH[of "Suc k" st' ret']
      by (simp add: mapped_def)
  next
    case (NotAvailable f)
    then show ?thesis using Cons.IH[of "Suc k" st "Outer k f ret"]
      by (simp add: mapped_def)
  qed
qed

lemma next_fold_failed:
  "foldl (next_fold r) (st, Exception e) fs = (st, Exception e)"
  by (induction fs) (simp_all add: next_fold_def)

lemma next_fold_in_order:
  "foldl (next_fold r) (st, Value ()) fs = in_order r st fs"
proof (induction fs arbitrary: st)
  case Nil
  show ?case by simp
next
  case (Cons f fs)
  show ?case
  proof (cases f)
    case (Exception e)
    have "next_fold r (st, Value ()) f = (st, Exception e)"
      using Exception by (simp add: next_fold_def)
    then show ?thesis using Exception by (simp add: next_fold_failed)
  next
    case (Value v)
    obtain c st' where c: "r st v = (c, st')" by (cases "r st v")
    have n: "next_fold r (st, Value ()) f = (st', eventual (futurize_apply c))"
      using Value c by (simp add: next_fold_def)
    show ?thesis
    proof (cases "eventual (futurize_apply c)")
      case (Exception e)
      then show ?thesis using Value c n by (simp add: next_fold_failed)
    next
      case (Value u)
      then show ?thesis using \<open>f = Value v\<close> c n Cons.IH[of st'] by simp
    qed
  qed
qed

lemma forecast_start:
  "forecast r (foldl (reducer_step r) (map_reduce_reducer xs mapper r st) events)
     = in_order r st (map eventual (mapped mapper xs))"
  by (simp add: forecast_run map_reduce_reducer_def forecast_loop next_fold_in_order)

lemma unavailable_Cons:
  "unavailable (f # fs) = (if available f then {} else {0}) \<union> Suc ` unavailable fs"
proof -
  have "\<And>i. (i < Suc (length fs) \<and> \<not> available ((f # fs) ! i)) \<longleftrightarrow>
      (i = 0 \<and> \<not> available f) \<or> (\<exists>j. i = Suc j \<and> j < length fs \<and> \<not> available (fs ! j))"
    by (case_tac i) auto
  then show ?thesis by (auto simp: unavailable_def image_iff)
qed

lemma inner_lambda_leaf:
  "mappers (snd (inner_lambda r st f rf)) = [] \<and> tidy (snd (inner_lambda r st f rf)) \<and>
   weight (snd (inner_lambda r st f rf)) \<le> 1"
  by (cases rf; cases f)
     (auto simp: inner_lambda_def split: prod.splits future.splits)

lemma mappers_outer_lambda: "mappers (snd (outer_lambda r st f ret)) = mappers ret"
  by (cases ret) (simp_all add: outer_lambda_def inner_lambda_leaf)

lemma tidy_outer_lambda: "tidy ret \<Longrightarrow> tidy (snd (outer_lambda r st f ret))"
  by (cases ret) (simp_all add: outer_lambda_def inner_lambda_leaf)

lemma weight_outer_lambda: "weight (snd (outer_lambda r st f ret)) \<le> Suc (weight ret)"
  using inner_lambda_leaf[of r st f] by (cases ret) (auto simp: outer_lambda_def)

lemma mappers_step:
  "mappers (snd (reducer_step r (st, ret) ev)) =
     (case ev of MapperResolved i \<Rightarrow> remove1 i (mappers ret) | ReducerResolved \<Rightarrow> mappers ret)"
proof (induction ret arbitrary: st)
  case (Settled rf)
  show ?case by (cases ev) simp_all
next
  case (Reducing out)
  show ?case by (cases ev) simp_all
next
  case (Outer j f ret)
  obtain st' ret' where e: "reducer_step r (st, ret) ev = (st', ret')"
    by (cases "reducer_step r (st, ret) ev")
  show ?case using Outer.IH[of st] e
    by (cases ev) (auto simp: mappers_outer_lambda)
next
  case (Inner f ret)
  obtain st' ret' where e: "reducer_step r (st, ret) ev = (st', ret')"
    by (cases "reducer_step r (st, ret) ev")
  show ?case using Inner.IH[of st] e mappers_outer_lambda[of r st' f ret']
    by (cases ev) simp_all
qed

lemma tidy_step: "tidy ret \<Longrightarrow> tidy (snd (reducer_step r (st, ret) ev))"
proof (induction ret arbitrary: st)
  case (Settled rf)
  show ?case by simp
next
  case (Reducing out)
  show ?case by (cases ev) simp_all
next
  case (Outer j f ret)
  obtain st' ret' where e: "reducer_step r (st, ret) ev = (st', ret')"
    by (cases "reducer_step r (st, ret) ev")
  show ?case using Outer.IH[of st] Outer.prems e by (simp add: tidy_outer_lambda)
next
  case (Inner f ret)
  obtain st' ret' where e: "reducer_step r (st, ret) ev = (st', ret')"
    by (cases "reducer_step r (st, ret) ev")
  have "tidy ret'" using Inner.IH[of st] Inner.prems e by simp
  then show ?case using e tidy_outer_lambda[of ret' r st' f] by simp
qed

lemma weight_step: "weight (snd (reducer_step r (st, ret) ev)) \<le> weight ret"
proof (induction ret arbitrary: st)
  case (Settled rf)
  show ?case by simp
next
  case (Reducing out)
  show ?case by (cases ev) simp_all
next
  case (Outer j f ret)
  obtain st' ret' where e: "reducer_step r (st, ret) ev = (st', ret')"
    by (cases "reducer_step r (st, ret) ev")
  show ?case using Outer.IH[of st] e weight_outer_lambda[of r st f ret] by simp
next
  case (Inner f ret)
  obtain st' ret' where e: "reducer_step r (st, ret) ev = (st', ret')"
    by (cases "reducer_step r (st, ret) ev")
  show ?case using Inner.IH[of st] e weight_outer_lambda[of r st' f ret'] by simp
qed

lemma weight_reducer_resolved:
  "tidy ret \<Longrightarrow> mappers ret = [] \<Longrightarrow> weight ret \<noteq> 0 \<Longrightarrow>
   weight (snd (reducer_step r (st, ret) ReducerResolved)) < weight ret"
proof (induction ret arbitrary: st)
  case (Settled rf)
  then show ?case by simp
next
  case (Reducing out)
  show ?case by simp
next
  case (Outer j f ret)
  then show ?case by simp
next
  case (Inner f ret)
  obtain st' ret' where e: "reducer_step r (st, ret) ReducerResolved = (st', ret')"
    by (cases "reducer_step r (st, ret) ReducerResolved")
  have "weight ret \<noteq> 0" using Inner.prems by (cases ret) simp_all
  then have "weight ret' < weight ret" using Inner.IH[of st] Inner.prems e by simp
  then show ?case using e weight_outer_lambda[of r st' f ret'] by simp
qed

lemma settled_weight: "weight ret = 0 \<longleftrightarrow> (\<exists>rf. ret = Settled rf)"
  by (cases ret) simp_all

lemma tidy_settled: "tidy ret \<Longrightarrow> mappers ret = [] \<Longrightarrow> awaited ret = [] \<Longrightarrow> \<exists>rf. ret = Settled rf"
  by (induction ret) (auto split: reducer_ret.splits)

lemma awaited_mappers: "awaited ret = [] \<Longrightarrow> mappers ret = []"
  by (induction ret) simp_all

lemma loop_invariants:
  "tidy ret \<Longrightarrow> distinct (mappers ret) \<Longrightarrow> \<forall>j\<in>set (mappers ret). j < k \<Longrightarrow>
   tidy (snd (map_reduce_reducer_loop xs k mapper r (st, ret))) \<and>
   distinct (mappers (snd (map_reduce_reducer_loop xs k mapper r (st, ret)))) \<and>
   set (mappers (snd (map_reduce_reducer_loop xs k mapper r (st, ret))))
     \<subseteq> set (mappers ret) \<union> (\<lambda>j. k + j) ` unavailable (mapped mapper xs) \<and>
   weight (snd (map_reduce_reducer_loop xs k mapper r (st, ret))) \<le> weight ret + length xs"
proof (induction xs arbitrary: k st ret)
  case Nil
  then show ?case by simp
next
  case (Cons x xs)
  show ?case
  proof (cases "futurize_apply (mapper x)")
    case (Available f)
    obtain st' ret' where o: "outer_lambda r st f ret = (st', ret')"
      by (cases "outer_lambda r st f ret")
    have aw: "mappers ret' = mappers ret"
      using mappers_outer_lambda[of r st f ret] o by simp
    have w: "weight ret' \<le> Suc (weight ret)"
      using weight_outer_lambda[of r st f ret] o by simp
    have "tidy ret'" using tidy_outer_lambda[OF Cons.prems(1), of r st f] o by simp
    moreover have "distinct (mappers ret')" "\<forall>j\<in>set (mappers ret'). j < Suc k"
      using Cons.prems aw by auto
    ultimately show ?thesis
      using Cons.IH[of ret' "Suc k" st'] Available o aw w
      by (auto simp: mapped_def unavailable_Cons image_image)
  next
    case (NotAvailable f)
    have "tidy (Outer k f ret)" "distinct (mappers (Outer k f ret))"
      "\<forall>j\<in>set (mappers (Outer k f ret)). j < Suc k"
      using Cons.prems by auto
    from Cons.IH[OF this, of st]
    show ?thesis using NotAvailable
      by (auto simp: mapped_def unavailable_Cons image_image)
  qed
qed

lemma mappers_run:
  "mappers (snd (foldl (reducer_step r) c events)) = foldl resolve_mapper (mappers (snd c)) events"
proof (induction events arbitrary: c)
  case Nil
  show ?case by simp
next
  case (Cons ev events)
  obtain st ret where c: "c = (st, ret)" by (cases c)
  show ?case using Cons.IH[of "reducer_step r c ev"] c
    by (cases ev) (simp_all add: mappers_step)
qed

lemma resolve_all:
  "distinct l \<Longrightarrow> \<forall>i\<in>set l. MapperResolved i \<in> set events \<Longrightarrow> foldl resolve_mapper l events = []"
proof (induction events arbitrary: l)
  case Nil
  then show ?case by (cases l) auto
next
  case (Cons ev events)
  show ?case
  proof (cases ev)
    case (MapperResolved i)
    have "distinct (remove1 i l)" using Cons.prems by simp
    moreover have "\<forall>j\<in>set (remove1 i l). MapperResolved j \<in> set events"
      using Cons.prems MapperResolved by auto
    ultimately show ?thesis using Cons.IH MapperResolved by simp
  next
    case ReducerResolved
    then show ?thesis using Cons.IH[of l] Cons.prems by simp
  qed
qed

lemma tidy_run: "tidy (snd c) \<Longrightarrow> tidy (snd (foldl (reducer_step r) c events))"
proof (induction events arbitrary: c)
  case Nil
  then show ?case by simp
next
  case (Cons ev events)
  obtain st ret where c: "c = (st, ret)" by (cases c)
  have "tidy (snd (reducer_step r c ev))"
    using Cons.prems c by (simp add: tidy_step)
  from Cons.IH[OF this] show ?case by simp
qed

lemma weight_run: "weight (snd (foldl (reducer_step r) c events)) \<le> weight (snd c)"
proof (induction events arbitrary: c)
  case Nil
  show ?case by simp
next
  case (Cons ev events)
  obtain st ret where c: "c = (st, ret)" by (cases c)
  have "weight (snd (reducer_step r c ev)) \<le> weight (snd c)"
    using c by (simp add: weight_step)
  then show ?case using Cons.IH[of "reducer_step r c ev"] by simp
qed

lemma reducer_drains:
  "tidy ret \<Longrightarrow> mappers ret = [] \<Longrightarrow> weight ret \<le> n \<Longrightarrow>
   weight (snd (foldl (reducer_step r) (st, ret) (replicate n ReducerResolved))) = 0"
proof (induction n arbitrary: st ret)
  case 0
  then show ?case by simp
next
  case (Suc n)
  obtain st' ret' where e: "reducer_step r (st, ret) ReducerResolved = (st', ret')"
    by (cases "reducer_step r (st, ret) ReducerResolved")
  have t: "tidy ret'" using tidy_step[OF Suc.prems(1), of r st ReducerResolved] e by simp
  have m: "mappers ret' = []"
    using mappers_step[of r st ret ReducerResolved] Suc.prems(2) e by simp
  have w: "weight ret' \<le> n"
  proof (cases "weight ret = 0")
    case True
    then show ?thesis using weight_step[of r st ret ReducerResolved] e by simp
  next
    case False
    then show ?thesis
      using weight_reducer_resolved[OF Suc.prems(1) Suc.prems(2), of r st] Suc.prems(3) e by simp
  qed
  show ?case using Suc.IH[OF t m w, of st'] e by simp
qed

lemma start_invariants:
  "tidy (snd (map_reduce_reducer xs mapper r st)) \<and>
   distinct (mappers (snd (map_reduce_reducer xs mapper r st))) \<and>
   set (mappers (snd (map_reduce_reducer xs mapper r st))) \<subseteq> unavailable (mapped mapper xs) \<and>
   weight (snd (map_reduce_reducer xs mapper r st)) \<le> length xs"
  using loop_invariants[of "Settled (Value ())" 0 xs mapper r st]
  by (simp add: map_reduce_reducer_def)

lemma map_reduce_reducer_settles:
  "map_reduce_reducer_future xs mapper r st get events =
     (if awaited (snd (foldl (reducer_step r) (map_reduce_reducer xs mapper r st) events)) = []
      then (case in_order r st (map eventual (mapped mapper xs)) of
              (st', Value u) \<Rightarrow> Resolved (get st')
            | (st', Exception e) \<Rightarrow> Resolved (Exception e))
      else Unset)"
proof -
  let ?final = "foldl (reducer_step r) (map_reduce_reducer xs mapper r st) events"
  obtain st' ret where f: "?final = (st', ret)" by (cases ?final)
  have t: "tidy ret"
    using tidy_run[of "map_reduce_reducer xs mapper r st" r events] start_invariants[of xs mapper r st] f
    by simp
  have fc: "forecast r (st', ret) = in_order r st (map eventual (mapped mapper xs))"
    using forecast_start[of r xs mapper st events] f by simp
  show ?thesis
  proof (cases "awaited ret = []")
    case True
    then obtain rf where rf: "ret = Settled rf"
      using t tidy_settled awaited_mappers by blast
    then have "in_order r st (map eventual (mapped mapper xs)) = (st', rf)"
      using fc by simp
    then show ?thesis using f rf True
      by (cases rf) (simp_all add: map_reduce_reducer_future_def)
  next
    case False
    then show ?thesis using f
      by (cases ret) (simp_all add: map_reduce_reducer_future_def)
  qed
qed

lemma map_reduce_reducer_completes:
  assumes "\<forall>i\<in>unavailable (mapped mapper xs). MapperResolved i \<in> set events"
  shows "foldl (reducer_step r) (map_reduce_reducer xs mapper r st)
       (events @ replicate (length xs) ReducerResolved) =
     (case in_order r st (map eventual (mapped mapper xs)) of (st', out) \<Rightarrow> (st', Settled out))"
proof -
  let ?start = "map_reduce_reducer xs mapper r st"
  let ?mid = "foldl (reducer_step r) ?start events"
  let ?final = "foldl (reducer_step r) ?start (events @ replicate (length xs) ReducerResolved)"
  note inv = start_invariants[of xs mapper r st]
  obtain st1 ret1 where m: "?mid = (st1, ret1)" by (cases ?mid)
  have t: "tidy ret1" using tidy_run[of ?start r events] inv m by simp
  have "foldl resolve_mapper (mappers (snd ?start)) events = []"
    using inv assms by (intro resolve_all) auto
  then have ms: "mappers ret1 = []" using mappers_run[of r ?start events] m by simp
  have w: "weight ret1 \<le> length xs"
    using weight_run[of r ?start events] inv m by simp
  obtain st' ret where f: "?final = (st', ret)" by (cases ?final)
  have "weight ret = 0"
    using reducer_drains[OF t ms w, of r st1] m f by simp
  then obtain rf where rf: "ret = Settled rf" using settled_weight by blast
  have "forecast r ?final = in_order r st (map eventual (mapped mapper xs))"
    by (rule forecast_start)
  then have "in_order r st (map eventual (mapped mapper xs)) = (st', rf)"
    using f rf by simp
  then show ?thesis using f rf by simp
qed

text \<open>
  Every mapper future that was pending at the launch is waited for: while one of them
  has not resolved the returned future is unresolved, whatever failed before it. Once
  all of them have resolved, and the reducer's futures after them, the returned future
  holds the outcome of the fold in input order.
\<close>

lemma loop_mappers:
  "set (mappers (snd (map_reduce_reducer_loop xs k mapper r (st, ret))))
     = set (mappers ret) \<union> (\<lambda>j. k + j) ` unavailable (mapped mapper xs)"
proof (induction xs arbitrary: k st ret)
  case Nil
  show ?case by (simp add: mapped_def unavailable_def)
next
  case (Cons x xs)
  show ?case
  proof (cases "futurize_apply (mapper x)")
    case (Available f)
    obtain st' ret' where o: "outer_lambda r st f ret = (st', ret')"
      by (cases "outer_lambda r st f ret")
    have aw: "mappers ret' = mappers ret"
      using mappers_outer_lambda[of r st f ret] o by simp
    show ?thesis
      using Cons.IH[of "Suc k" st' ret'] Available o aw
      by (simp add: mapped_def unavailable_Cons image_image)
  next
    case (NotAvailable f)
    show ?thesis
      using Cons.IH[of "Suc k" st "Outer k f ret"] NotAvailable
      by (simp add: mapped_def unavailable_Cons image_image image_Un)
  qed
qed

lemma mappers_start:
  "set (mappers (snd (map_reduce_reducer xs mapper r st))) = unavailable (mapped mapper xs)"
  using loop_mappers[of xs 0 mapper r st "Settled (Value ())"]
  by (simp add: map_reduce_reducer_def)

lemma resolve_keeps:
  "i \<in> set l \<Longrightarrow> MapperResolved i \<notin> set events \<Longrightarrow> i \<in> set (foldl resolve_mapper l events)"
proof (induction events arbitrary: l)
  case Nil
  then show ?case by simp
next
  case (Cons ev events)
  have "i \<in> set (resolve_mapper l ev)"
    using Cons.prems by (cases ev) auto
  then show ?case using Cons.IH Cons.prems by simp
qed

lemma maybe_call_get_waits: "mappers ret \<noteq> [] \<Longrightarrow> maybe_call_get get (st, ret) = Unset"
  by (cases ret) simp_all

lemma map_reduce_reducer_waits:
  assumes "i \<in> unavailable (mapped mapper xs)" and "MapperResolved i \<notin> set events"
  shows "map_reduce_reducer_future xs mapper r st get events = Unset"
proof -
  let ?start = "map_reduce_reducer xs mapper r st"
  obtain st' ret where f: "foldl (reducer_step r) ?start events = (st', ret)"
    by (cases "foldl (reducer_step r) ?start events")
  have "i \<in> set (mappers (snd ?start))" using assms(1) by (simp add: mappers_start)
  then have "i \<in> set (foldl resolve_mapper (mappers (snd ?start)) events)"
    using assms(2) by (rule resolve_keeps)
  then have "mappers ret \<noteq> []"
    using mappers_run[of r ?start events] f by auto
  then show ?thesis using f by (simp add: map_reduce_reducer_future_def maybe_call_get_waits)
qed

lemma map_reduce_reducer_delivers:
  assumes "\<forall>i\<in>unavailable (mapped mapper xs). MapperResolved i \<in> set events"
  shows "map_reduce_reducer_future xs mapper r st get
       (events @ replicate (length xs) ReducerResolved) =
     (case in_order r st (map eventual (mapped mapper xs)) of
        (st', Value u) \<Rightarrow> Resolved (get st')
      | (st', Exception e) \<Rightarrow> Resolved (Exception e))"
proof -
  obtain st' out where io: "in_order r st (map eventual (mapped mapper xs)) = (st', out)"
    by (cases "in_order r st (map eventual (mapped mapper xs))")
  show ?thesis
    using map_reduce_reducer_completes[OF assms, of r st] io
    by (cases out) (simp_all add: map_reduce_reducer_future_def)
qed

lemma chain_Nil [simp]: "chain [] = MadeReady"
  by (simp add: chain_def)

lemma chain_snoc [simp]: "chain (ss @ [s]) = wrap (length ss) s (chain ss)"
  by (simp add: chain_def enumerate_append_eq)

lemma map_reduce_lambda_wrap:
  "map_reduce_lambda reduce result f ret =
     (case fold_step reduce result f of (result', s) \<Rightarrow> (result', wrap k s ret))"
  by (cases f) (simp_all add: map_reduce_lambda_def fold_step_def split: sum.splits)

lemma map_reduce_loop_chain:
  "map_reduce_loop xs (length slots) mapper reduce (result, chain slots) =
     (case launch_folds (mapped mapper xs) reduce (result, slots) of
        (result', slots') \<Rightarrow> (result', chain slots'))"
proof (induction xs arbitrary: result slots)
  case Nil
  show ?case by (simp add: mapped_def)
next
  case (Cons x xs)
  show ?case
  proof (cases "futurize_apply (mapper x)")
    case (Available f)
    obtain result' s where fs: "fold_step reduce result f = (result', s)"
      by (cases "fold_step reduce result f")
    have "map_reduce_lambda reduce result f (chain slots) = (result', chain (slots @ [s]))"
      using fs by (simp add: map_reduce_lambda_wrap[where k = "length slots"])
    then show ?thesis using Available fs Cons.IH[of "slots @ [s]" result']
      by (simp add: mapped_def)
  next
    case (NotAvailable f)
    then show ?thesis using Cons.IH[of "slots @ [Unready f]" result]
      by (simp add: mapped_def)
  qed
qed

lemma fold_arrived_snoc:
  "i \<noteq> length ss \<Longrightarrow>
   fold_arrived reduce (result, ss @ [s]) i =
     (case fold_arrived reduce (result, ss) i of (result', ss') \<Rightarrow> (result', ss' @ [s]))"
  by (auto simp: nth_append list_update_append split: slot.splits prod.splits)

lemma fold_arrived_beyond:
  "length ss \<le> i \<Longrightarrow> fold_arrived reduce (result, ss) i = (result, ss)"
  by simp

lemma fold_arrived_length:
  "fold_arrived reduce (result, ss) i = (result', ss') \<Longrightarrow> length ss' = length ss"
  by (auto split: if_splits slot.splits prod.splits)

declare fold_arrived.simps [simp del]

lemma mapper_resolved_chain:
  "mapper_resolved reduce (result, chain slots) i =
     (case fold_arrived reduce (result, slots) i of
        (result', slots') \<Rightarrow> (result', chain slots'))"
proof (induction slots arbitrary: result rule: rev_induct)
  case Nil
  show ?case by (simp add: fold_arrived.simps)
next
  case (snoc s ss)
  obtain result' ss' where fa: "fold_arrived reduce (result, ss) i = (result', ss')"
    by (cases "fold_arrived reduce (result, ss) i")
  have len: "length ss' = length ss" using fa by (rule fold_arrived_length)
  have ih: "mapper_resolved reduce (result, chain ss) i = (result', chain ss')"
    using snoc.IH[of result] fa by simp
  show ?case
  proof (cases "i = length ss")
    case True
    have same: "result' = result" "ss' = ss"
      using fa True by (simp_all add: fold_arrived.simps)
    show ?thesis
    proof (cases s)
      case (Unready f)
      obtain result'' s' where fs: "fold_step reduce result f = (result'', s')"
        by (cases "fold_step reduce result f")
      then show ?thesis using True Unready
        by (simp add: map_reduce_lambda_wrap[where k = "length ss"] fold_arrived.simps)
    next
      case Folded
      then show ?thesis using True ih same by (simp add: fold_arrived.simps)
    next
      case (Caught e)
      then show ?thesis using True ih same by (simp add: fold_arrived.simps)
    qed
  next
    case False
    have "fold_arrived reduce (result, ss @ [s]) i = (result', ss' @ [s])"
      by (simp add: fold_arrived_snoc[OF False] fa)
    then show ?thesis using False ih len by (cases s) simp_all
  qed
qed

lemma mapper_resolved_run:
  "foldl (mapper_resolved reduce) (result, chain slots) order =
     (case foldl (fold_arrived reduce) (result, slots) order of
        (result', slots') \<Rightarrow> (result', chain slots'))"
proof (induction order arbitrary: result slots)
  case Nil
  show ?case by simp
next
  case (Cons i order)
  obtain result' slots' where fa: "fold_arrived reduce (result, slots) i = (result', slots')"
    by (cases "fold_arrived reduce (result, slots) i")
  show ?case using Cons.IH[of result' slots'] fa
    by (simp add: mapper_resolved_chain)
qed

lemma catches_append: "catches (ss @ ts) = catches ss @ catches ts"
  by (induction ss rule: catches.induct) simp_all

lemma ret_outcome_chain:
  "ret_outcome (chain slots) =
     (if list_ex unready slots then None
      else if catches slots = [] then Some (Value ())
      else Some (Exception (last (catches slots))))"
proof (induction slots rule: rev_induct)
  case Nil
  show ?case by simp
next
  case (snoc s ss)
  show ?case using snoc by (cases s) (simp_all add: catches_append)
qed

lemma delivered_chain: "delivered (result, chain slots) = folds_outcome (result, slots)"
  by (simp add: ret_outcome_chain)

lemma map_reduce_folds:
  "map_reduce_future xs mapper initial reduce order =
     folds_outcome (foldl (fold_arrived reduce)
       (launch_folds (mapped mapper xs) reduce (initial, [])) order)"
proof -
  obtain result slots where l: "launch_folds (mapped mapper xs) reduce (initial, []) = (result, slots)"
    by (cases "launch_folds (mapped mapper xs) reduce (initial, [])")
  have m: "map_reduce xs mapper initial reduce = (result, chain slots)"
    using map_reduce_loop_chain[of xs "[]" mapper reduce initial] l
    by (simp add: map_reduce_def)
  obtain result' slots' where f: "foldl (fold_arrived reduce) (result, slots) order = (result', slots')"
    by (cases "foldl (fold_arrived reduce) (result, slots) order")
  show ?thesis
    using l m f mapper_resolved_run[of reduce result slots order]
    by (simp add: map_reduce_future_def delivered_chain del: folds_outcome.simps delivered.simps)
qed

lemma unready_at_snoc:
  "unready_at (slots @ [s]) = unready_at slots \<union> (if unready s then {length slots} else {})"
  by (auto simp: unready_at_def nth_append less_Suc_eq)

lemma fold_step_ready: "fold_step reduce result f = (result', s) \<Longrightarrow> \<not> unready s"
  by (auto simp: fold_step_def split: outcome.splits sum.splits)

lemma unready_at_Nil [simp]: "unready_at [] = {}"
  by (simp add: unready_at_def)

lemma unready_at_launch:
  "unready_at (snd (launch_folds fs reduce (result, slots)))
     = unready_at slots \<union> (\<lambda>j. length slots + j) ` unavailable fs"
proof (induction fs arbitrary: result slots)
  case Nil
  show ?case by (simp add: unavailable_def)
next
  case (Cons f fs)
  show ?case
  proof (cases f)
    case (Available out)
    obtain result' s where fs: "fold_step reduce result out = (result', s)"
      by (cases "fold_step reduce result out")
    have "\<not> unready s" using fs by (rule fold_step_ready)
    then show ?thesis using Cons.IH[of result' "slots @ [s]"] fs Available
      by (simp add: unready_at_snoc unavailable_Cons image_image)
  next
    case (NotAvailable out)
    show ?thesis using Cons.IH[of result "slots @ [Unready out]"] NotAvailable
      by (simp add: unready_at_snoc unavailable_Cons image_image image_Un)
  qed
qed

lemma unready_at_arrived:
  "unready_at (snd (fold_arrived reduce (result, slots) i)) = unready_at slots - {i}"
proof (cases "i < length slots")
  case False
  then show ?thesis by (auto simp: fold_arrived.simps unready_at_def)
next
  case True
  show ?thesis
  proof (cases "slots ! i")
    case (Unready f)
    obtain result' s where fs: "fold_step reduce result f = (result', s)"
      by (cases "fold_step reduce result f")
    have "\<not> unready s" using fs by (rule fold_step_ready)
    then show ?thesis using True Unready fs
      by (auto simp: fold_arrived.simps unready_at_def nth_list_update)
  next
    case Folded
    then show ?thesis using True by (auto simp: fold_arrived.simps unready_at_def)
  next
    case (Caught e)
    then show ?thesis using True by (auto simp: fold_arrived.simps unready_at_def)
  qed
qed

lemma unready_at_run:
  "unready_at (snd (foldl (fold_arrived reduce) c order)) = unready_at (snd c) - set order"
proof (induction order arbitrary: c)
  case Nil
  show ?case by simp
next
  case (Cons i order)
  obtain result slots where c: "c = (result, slots)" by (cases c)
  show ?case using Cons.IH[of "fold_arrived reduce c i"] c
    by (auto simp: unready_at_arrived)
qed

lemma unready_at_empty: "unready_at slots = {} \<longleftrightarrow> \<not> list_ex unready slots"
  using nth_mem by (fastforce simp: unready_at_def list_ex_iff in_set_conv_nth)

lemma folds_all_arrived:
  assumes "unavailable (mapped mapper xs) \<subseteq> set order"
  shows "\<not> list_ex unready
     (snd (foldl (fold_arrived reduce) (launch_folds (mapped mapper xs) reduce (initial, [])) order))"
proof -
  have "unready_at (snd (launch_folds (mapped mapper xs) reduce (initial, [])))
      = unavailable (mapped mapper xs)"
    by (simp add: unready_at_launch)
  then have "unready_at (snd (foldl (fold_arrived reduce)
      (launch_folds (mapped mapper xs) reduce (initial, [])) order)) = {}"
    using assms by (simp add: unready_at_run)
  then show ?thesis by (simp add: unready_at_empty)
qed

text \<open>
  The overload with an initial value waits for every pending mapper future too: the
  returned future is unresolved exactly while one of them has not resolved.
\<close>

lemma map_reduce_waits:
  "map_reduce_future xs mapper initial reduce order = Unset
     \<longleftrightarrow> \<not> unavailable (mapped mapper xs) \<subseteq> set order"
proof -
  let ?final = "foldl (fold_arrived reduce)
      (launch_folds (mapped mapper xs) reduce (initial, [])) order"
  obtain result slots where f: "?final = (result, slots)" by (cases ?final)
  have "unready_at (snd (launch_folds (mapped mapper xs) reduce (initial, [])))
      = unavailable (mapped mapper xs)"
    by (simp add: unready_at_launch)
  then have "unready_at slots = unavailable (mapped mapper xs) - set order"
    using unready_at_run[of reduce "launch_folds (mapped mapper xs) reduce (initial, [])" order] f
    by simp
  then have "list_ex unready slots \<longleftrightarrow> \<not> unavailable (mapped mapper xs) \<subseteq> set order"
    using unready_at_empty[of slots] by auto
  then show ?thesis
    using map_reduce_folds[of xs mapper initial reduce order] f by simp
qed

text \<open>
  When \<^verbatim>\<open>reduce\<close> never throws, the exceptions caught are those of the mappers, in
  input order.
\<close>

lemma fold_step_total_agrees:
  "fold_step (\<lambda>a v. Inr (g a v)) result f = (result', s) \<Longrightarrow> agrees s f"
  by (cases f) (auto simp: fold_step_def)

lemma launch_folds_agree:
  "list_all2 agrees slots outs \<Longrightarrow>
   list_all2 agrees (snd (launch_folds fs (\<lambda>a v. Inr (g a v)) (result, slots)))
     (outs @ map eventual fs)"
proof (induction fs arbitrary: result slots outs)
  case Nil
  then show ?case by simp
next
  case (Cons f fs)
  show ?case
  proof (cases f)
    case (Available out)
    obtain result' s where st: "fold_step (\<lambda>a v. Inr (g a v)) result out = (result', s)"
      by (cases "fold_step (\<lambda>a v. Inr (g a v)) result out")
    have "list_all2 agrees (slots @ [s]) (outs @ [out])"
      using Cons.prems fold_step_total_agrees[OF st] by (simp add: list_all2_appendI)
    from Cons.IH[OF this, of result'] show ?thesis using Available st by simp
  next
    case (NotAvailable out)
    have "list_all2 agrees (slots @ [Unready out]) (outs @ [out])"
      using Cons.prems by (simp add: list_all2_appendI)
    from Cons.IH[OF this, of result] show ?thesis using NotAvailable by simp
  qed
qed

lemma fold_arrived_agree:
  "list_all2 agrees slots outs \<Longrightarrow>
   list_all2 agrees (snd (fold_arrived (\<lambda>a v. Inr (g a v)) (result, slots) i)) outs"
proof (cases "i < length slots")
  case False
  assume "list_all2 agrees slots outs"
  then show ?thesis using False by (simp add: fold_arrived.simps)
next
  case True
  assume a: "list_all2 agrees slots outs"
  show ?thesis
  proof (cases "slots ! i")
    case (Unready f)
    obtain result' s where st: "fold_step (\<lambda>a v. Inr (g a v)) result f = (result', s)"
      by (cases "fold_step (\<lambda>a v. Inr (g a v)) result f")
    have "outs ! i = f" using a True Unready by (auto dest: list_all2_nthD)
    then have "agrees s (outs ! i)" using fold_step_total_agrees[OF st] by simp
    then have "list_all2 agrees (slots[i := s]) outs"
      using a True by (metis list_all2_update_cong list_update_id)
    then show ?thesis using True Unready st by (simp add: fold_arrived.simps)
  next
    case Folded
    then show ?thesis using a True by (simp add: fold_arrived.simps)
  next
    case (Caught e)
    then show ?thesis using a True by (simp add: fold_arrived.simps)
  qed
qed

lemma folds_run_agree:
  "list_all2 agrees (snd c) outs \<Longrightarrow>
   list_all2 agrees (snd (foldl (fold_arrived (\<lambda>a v. Inr (g a v))) c order)) outs"
proof (induction order arbitrary: c)
  case Nil
  then show ?case by simp
next
  case (Cons i order)
  obtain result slots where c: "c = (result, slots)" by (cases c)
  have "list_all2 agrees (snd (fold_arrived (\<lambda>a v. Inr (g a v)) c i)) outs"
    using Cons.prems c fold_arrived_agree[of slots outs g result i] by simp
  from Cons.IH[OF this] show ?case by simp
qed

lemma catches_agree:
  "list_all2 agrees slots outs \<Longrightarrow> \<not> list_ex unready slots \<Longrightarrow> catches slots = exceptions outs"
proof (induction slots outs rule: list_all2_induct)
  case Nil
  show ?case by simp
next
  case (Cons s slots out outs)
  then show ?case by (cases s; cases out) auto
qed

lemma failures_exceptions:
  "failures (map mapper xs) = exceptions (map eventual (mapped mapper xs))"
proof (induction xs)
  case Nil
  show ?case by (simp add: failures_def mapped_def)
next
  case (Cons x xs)
  then show ?case
    by (cases "mapper x"; cases "eventual (futurize_apply (mapper x))")
       (auto simp: failures_def mapped_def)
qed

lemma map_reduce_last_mapper_failure:
  assumes "unavailable (mapped mapper xs) \<subseteq> set order"
    and "failures (map mapper xs) \<noteq> []"
  shows "map_reduce_future xs mapper initial (\<lambda>a v. Inr (g a v)) order
     = Resolved (Exception (last (failures (map mapper xs))))"
proof -
  let ?reduce = "\<lambda>a v. Inr (g a v)"
  let ?final = "foldl (fold_arrived ?reduce) (launch_folds (mapped mapper xs) ?reduce (initial, [])) order"
  obtain result slots where f: "?final = (result, slots)" by (cases ?final)
  have "list_all2 agrees (snd (launch_folds (mapped mapper xs) ?reduce (initial, [])))
      (map eventual (mapped mapper xs))"
    using launch_folds_agree[of "[]" "[]" "mapped mapper xs" g initial] by simp
  then have ag: "list_all2 agrees slots (map eventual (mapped mapper xs))"
    using folds_run_agree[of "launch_folds (mapped mapper xs) ?reduce (initial, [])" _ g order] f
    by simp
  have nu: "\<not> list_ex unready slots"
    using folds_all_arrived[OF assms(1), of ?reduce initial] f by simp
  have "catches slots = failures (map mapper xs)"
    using catches_agree[OF ag nu] by (simp add: failures_exceptions)
  then show ?thesis
    using map_reduce_folds[of xs mapper initial ?reduce order] f nu assms(2) by simp
qed

text \<open>
  C3. Element 1 is mapped by a future that is pending at first and element 2 by a ready
  one; \<^verbatim>\<open>reduce\<close> appends a digit. The overload with an initial value folds 2 before
  1 and delivers 21, where the left-to-right fold of the claim is 12, which is what the
  overload with a reducer object delivers for the same mapper. When every mapper's
  future is ready the fold is in input order: \<open>[1, 2, 3, 4, 5]\<close> with the identity
  mapper, 0 and addition gives 15.
\<close>

theorem map_reduce_completion_order:
  "map_reduce_future [1, 2] late_first 0 append_digit [0] = Resolved (Value 21) \<and>
   append_digit 0 1 = Inr 1 \<and> append_digit 1 2 = Inr 12 \<and>
   map_reduce_reducer_future [1, 2] late_first digit_appender 0 Value [MapperResolved 0]
     = Resolved (Value 12) \<and>
   map_reduce_future [1, 2, 3, 4, 5] identity_mapper 0 addition [] = Resolved (Value 15)"
  by (simp add: map_reduce_future_def map_reduce_def map_reduce_lambda_def late_first_def
      append_digit_def identity_mapper_def addition_def map_reduce_reducer_future_def
      map_reduce_reducer_def outer_lambda_def inner_lambda_def digit_appender_def)

text \<open>
  C4. The overload with an initial value does not keep the first failure and does not
  stop folding after it. When the mapper throws \<open>''first''\<close> for element 1 and returns a
  failed future holding \<open>''second''\<close> for element 2, the returned future holds
  \<open>''second''\<close>; the overload with a reducer object, given the same mapper and
  \<^verbatim>\<open>adder\<close>, holds \<open>''first''\<close>, which is the first failure in input order. When only the mapper of element 1 fails and element 2
  is mapped to the value 2, \<^verbatim>\<open>reduce\<close> is still applied to that value and the
  accumulator becomes 2; the overload with a reducer object does not call the reducer,
  whose state stays 0.
\<close>

theorem map_reduce_last_failure:
  "map_reduce_future [1, 2] both_fail 0 addition [] = Resolved (Exception ''second'') \<and>
   map_reduce_reducer_future [1, 2] both_fail adder 0 Value [] = Resolved (Exception ''first'') \<and>
   in_order adder 0 (map eventual (mapped both_fail [1, 2])) = (0, Exception ''first'') \<and>
   map_reduce [1, 2] first_fails 0 addition = (2, ThenFail MadeReady ''first'') \<and>
   map_reduce_reducer [1, 2] first_fails adder 0 = (0, Settled (Exception ''first''))"
  by (simp add: map_reduce_future_def map_reduce_def map_reduce_lambda_def both_fail_def
      first_fails_def addition_def map_reduce_reducer_future_def map_reduce_reducer_def
      outer_lambda_def inner_lambda_def adder_def mapped_def)

end
